theory Spec2Isabelle
  imports Main "HOL-Library.AList"
begin

section \<open>Data model of \<^verbatim>\<open>arviz/data/base.py\<close>\<close>

text \<open>
  Python values that occur as coordinate labels and as attribute values: integers and
  strings.
\<close>

datatype pyval = PyInt int | PyStr string

text \<open>
  A Python \<^verbatim>\<open>dict\<close> with string keys is an association list in insertion order.
  \<^verbatim>\<open>d[k] = v\<close> is \<^const>\<open>AList.update\<close>: it overwrites the value of a key that is
  present in place and appends a new key at the end, as Python does. \<^verbatim>\<open>k in d\<close> is
  \<open>k \<in> fst ` set d\<close> and \<^verbatim>\<open>d.get(k)\<close> is \<^const>\<open>map_of\<close>.
\<close>

type_synonym CoordSpec = "(string \<times> pyval list) list"

text \<open>
  The two warnings of the module (both of category \<^verbatim>\<open>SyntaxWarning\<close>), with the
  arguments of their format strings: line 74 (variable name, \<^verbatim>\<open>len(dims)\<close>,
  \<^verbatim>\<open>len(shape)\<close>, the default dims) and line 140 (chains, draws).
\<close>

datatype warning =
    MoreDimsThanShape string nat nat "string list"
  | MoreChainsThanDraws nat nat

text \<open>
  The exceptions a call can end in: the failed unpacking of line 138, the missing key of
  the dictionary comprehension of line 164, the two refusals of the array constructor
  of line 165, and a refusal of the dataset constructor of line 202.
\<close>

datatype error =
    UnpackError nat
  | KeyError "string option"
  | DimsRankError nat nat
  | CoordinateLengthError string nat
  | DatasetError string

text \<open>A numeric array: its shape and its entries in row-major order.\<close>

record 'a ndarray =
  nd_shape :: "nat list"
  nd_data :: "'a list"

text \<open>The labeled array that \<^verbatim>\<open>xr.DataArray\<close> builds.\<close>

record 'a DataArray =
  da_values :: "'a ndarray"
  da_coords :: CoordSpec
  da_dims :: "string list"

section \<open>Formatting of generated dimension names\<close>

text \<open>
  \<^verbatim>\<open>"{var_name}_dim_{idx}".format(var_name=var_name, idx=idx)\<close>: Python writes the
  index in decimal, without leading zeros.
\<close>

definition digit_char :: "nat \<Rightarrow> char" where
  "digit_char d = ''0123456789'' ! d"

function str_nat :: "nat \<Rightarrow> string" where
  "str_nat n = (if n < 10 then [digit_char n] else str_nat (n div 10) @ [digit_char (n mod 10)])"
  by pat_completeness auto
termination
  by (relation "measure id") auto

declare str_nat.simps [simp del]

definition format_dim_name :: "string \<Rightarrow> nat \<Rightarrow> string" where
  "format_dim_name var_name idx = var_name @ ''_dim_'' @ str_nat idx"

section \<open>\<^verbatim>\<open>generate_dims_coords\<close> (lines 41 to 104)\<close>

text \<open>
  Modelled from the spec: \<^verbatim>\<open>utils.arange\<close>, which is not among the sources. The spec
  (4.1, step 4) has it generate "an integer sequence 0, 1, ..., dim_len-1".
\<close>

definition arange :: "nat \<Rightarrow> pyval list" where
  "arange n = map (\<lambda>i. PyInt (int i)) [0..<n]"

text \<open>
  The loop of lines 93 to 102 over \<^verbatim>\<open>enumerate(shape)\<close>, on the copies of \<^verbatim>\<open>dims\<close>
  and \<^verbatim>\<open>coords\<close>. An entry of \<^verbatim>\<open>dims\<close> is \<open>None\<close> where the caller left a gap.
  The loop starts at \<open>idx = 0\<close> and appends whenever the list is too short, so
  \<open>idx \<le> length dims\<close> holds at every iteration: an append lands at position \<open>idx\<close>,
  and the read \<^verbatim>\<open>dim_name = dims[idx]\<close> of line 100 returns what lines 97 and 99 wrote
  (lemma \<open>set_dim_read\<close> below).
\<close>

definition set_dim :: "string \<Rightarrow> nat \<Rightarrow> string option list \<Rightarrow> string option list \<times> string" where
  "set_dim var_name idx dims =
     (if length dims < idx + 1 \<or> dims ! idx = None then
        (let dim_name = format_dim_name var_name idx in
         if length dims < idx + 1 then (dims @ [Some dim_name], dim_name)
         else (dims[idx := Some dim_name], dim_name))
      else (dims, case dims ! idx of Some dim_name \<Rightarrow> dim_name | None \<Rightarrow> []))"

fun gdc_loop ::
  "string \<Rightarrow> nat \<Rightarrow> nat list \<Rightarrow> string option list \<Rightarrow> CoordSpec \<Rightarrow> string option list \<times> CoordSpec"
where
  "gdc_loop var_name idx [] dims coords = (dims, coords)"
| "gdc_loop var_name idx (dim_len # shape) dims coords =
     (let (dims', dim_name) = set_dim var_name idx dims;
          coords' = (if dim_name \<notin> fst ` set coords
                     then AList.update dim_name (arange dim_len) coords else coords)
      in gdc_loop var_name (idx + 1) shape dims' coords')"

text \<open>
  The function on values. It returns its warnings (line 74), the dims and the coords.
  The \<^verbatim>\<open>deepcopy\<close> of lines 90 and 91 is the identity on values; the model on a
  store of objects, further down, has the copies as objects of their own.
\<close>

definition generate_dims_coords ::
  "nat list \<Rightarrow> string \<Rightarrow> string option list option \<Rightarrow> CoordSpec option \<Rightarrow> string list option
     \<Rightarrow> warning list \<times> string option list \<times> CoordSpec"
where
  "generate_dims_coords shape var_name dims coords default_dims =
     (let default_dims = (case default_dims of None \<Rightarrow> [] | Some d \<Rightarrow> d);
          dims = (case dims of None \<Rightarrow> [] | Some d \<Rightarrow> d);
          ws = (if length (filter (\<lambda>dim. dim \<notin> Some ` set default_dims) dims) > length shape
                then [MoreDimsThanShape var_name (length dims) (length shape) default_dims]
                else []);
          coords = (case coords of None \<Rightarrow> [] | Some c \<Rightarrow> c);
          (dims, coords) = gdc_loop var_name 0 shape dims coords;
          coords = filter (\<lambda>(key, coord). \<exists>dim \<in> set dims. Some key = dim) coords
      in (ws, dims, coords))"

section \<open>\<^verbatim>\<open>numpy_to_data_array\<close> (lines 107 to 165)\<close>

text \<open>
  Modelled from the spec: \<^verbatim>\<open>utils.two_de\<close>, which is not among the sources. The spec
  (4.2) takes an array of rank at least 1: "Rank-1 arrays are treated as a single
  chain: reshape conceptually to rank 2 by prepending a size-1 leading axis", and an
  array of rank 2 or more is taken as it is. The data are not touched. An array of rank
  0 is outside the spec; it is left as it is here, and line 138 then cannot unpack its
  shape.
\<close>

definition two_de :: "'a ndarray \<Rightarrow> 'a ndarray" where
  "two_de ary = (if length (nd_shape ary) = 1 then ary\<lparr>nd_shape := 1 # nd_shape ary\<rparr> else ary)"

text \<open>
  The library primitives of lines 164 and 165. \<^verbatim>\<open>xr.IndexVariable((key,), data)\<close> wraps
  a coordinate sequence as a one-dimensional index and keeps its labels.
  \<^verbatim>\<open>xr.DataArray(ary, coords, dims)\<close> is the construction primitive of the spec (4.2):
  it refuses a dims list whose length is not the rank of the data, and it "fails if any
  coordinate sequence length does not match its axis length"; the first axis at fault
  is reported.
\<close>

definition xr_IndexVariable :: "string \<Rightarrow> pyval list \<Rightarrow> pyval list" where
  "xr_IndexVariable key data = data"

definition xr_DataArray :: "'a ndarray \<Rightarrow> CoordSpec \<Rightarrow> string list \<Rightarrow> error + 'a DataArray" where
  "xr_DataArray ary coords dims =
     (if length dims \<noteq> length (nd_shape ary)
      then Inl (DimsRankError (length (nd_shape ary)) (length dims))
      else case find (\<lambda>(d, n). case map_of coords d of None \<Rightarrow> False | Some c \<Rightarrow> length c \<noteq> n)
                     (zip dims (nd_shape ary)) of
             Some (d, n) \<Rightarrow> Inl (CoordinateLengthError d n)
           | None \<Rightarrow> Inr \<lparr>da_values = ary, da_coords = coords, da_dims = dims\<rparr>)"

text \<open>
  The dictionary comprehension of line 164, \<^verbatim>\<open>{key: ... coords[key] for key in dims}\<close>:
  the keys are taken in the order of \<^verbatim>\<open>dims\<close>, and \<^verbatim>\<open>coords[key]\<close> raises
  \<^verbatim>\<open>KeyError\<close> for a key that has no coordinate (a \<open>None\<close> entry never has one).
\<close>

fun index_coords :: "CoordSpec \<Rightarrow> string option list \<Rightarrow> CoordSpec \<Rightarrow> error + CoordSpec" where
  "index_coords coords [] acc = Inr acc"
| "index_coords coords (key # dims) acc =
     (case key of
        None \<Rightarrow> Inl (KeyError None)
      | Some k \<Rightarrow>
          (case map_of coords k of
             None \<Rightarrow> Inl (KeyError (Some k))
           | Some c \<Rightarrow> index_coords coords dims (AList.update k (xr_IndexVariable k c) acc)))"

text \<open>
  Lines 153 to 156 put the reserved names in front of the inferred dims, \<^verbatim>\<open>"draw"\<close>
  first and \<^verbatim>\<open>"chain"\<close> after it ("reversed order for default dims"), each only if
  the list does not have it. Lines 158 to 161 give each of the two a default coordinate
  if it has none.
\<close>

definition add_default_dims :: "string option list \<Rightarrow> string option list" where
  "add_default_dims dims =
     (let dims = (if Some ''draw'' \<notin> set dims then [Some ''draw''] @ dims else dims);
          dims = (if Some ''chain'' \<notin> set dims then [Some ''chain''] @ dims else dims)
      in dims)"

definition add_default_coords :: "nat \<Rightarrow> nat \<Rightarrow> CoordSpec \<Rightarrow> CoordSpec" where
  "add_default_coords n_chains n_samples coords =
     (let coords = (if ''chain'' \<notin> fst ` set coords
                    then AList.update ''chain'' (arange n_chains) coords else coords);
          coords = (if ''draw'' \<notin> fst ` set coords
                    then AList.update ''draw'' (arange n_samples) coords else coords)
      in coords)"

text \<open>
  The result is the list of warnings emitted, in order, and either the exception that
  ended the call or the labeled array. The unpacking of line 138 needs two axes. The
  constructor takes the dims as names, which they all are once line 164 has found a
  coordinate for each.
\<close>

definition numpy_to_data_array ::
  "'a ndarray \<Rightarrow> string \<Rightarrow> CoordSpec option \<Rightarrow> string option list option
     \<Rightarrow> warning list \<times> (error + 'a DataArray)"
where
  "numpy_to_data_array ary var_name coords dims =
     (let default_dims = [''chain'', ''draw''];
          ary = two_de ary
      in case nd_shape ary of
           n_chains # n_samples # shape \<Rightarrow>
             (let ws1 = (if n_chains > n_samples
                         then [MoreChainsThanDraws n_chains n_samples] else []);
                  (ws2, dims, coords) =
                     generate_dims_coords shape var_name dims coords (Some default_dims);
                  dims = add_default_dims dims;
                  coords = add_default_coords n_chains n_samples coords
              in (ws1 @ ws2,
                  case index_coords coords dims [] of
                    Inl e \<Rightarrow> Inl e
                  | Inr coords \<Rightarrow>
                      (case those dims of
                         None \<Rightarrow> Inl (KeyError None)
                       | Some dims \<Rightarrow> xr_DataArray ary coords dims)))
         | sh \<Rightarrow> ([], Inl (UnpackError (length sh))))"

section \<open>\<^verbatim>\<open>make_attrs\<close> (lines 205 to 232) and \<^verbatim>\<open>dict_to_dataset\<close> (lines 168 to 202)\<close>

text \<open>
  What \<^verbatim>\<open>make_attrs\<close> reads from outside: the clock
  (\<^verbatim>\<open>datetime.datetime.utcnow().isoformat()\<close>) and the installed distributions
  (\<^verbatim>\<open>pkg_resources.get_distribution(name).version\<close>, \<open>None\<close> for
  \<^verbatim>\<open>DistributionNotFound\<close>). A library is a module: its \<^verbatim>\<open>__name__\<close> and, when it has
  one, its \<^verbatim>\<open>__version__\<close>.
\<close>

record env =
  utcnow_isoformat :: string
  get_distribution_version :: "string \<Rightarrow> string option"

record module =
  mod_name :: string
  mod_version :: "pyval option"

type_synonym attrs = "(string \<times> pyval) list"

text \<open>\<^verbatim>\<open>d.update(other)\<close> stores the entries of \<^verbatim>\<open>other\<close> in its order.\<close>

definition dict_update :: "('k \<times> 'v) list \<Rightarrow> ('k \<times> 'v) list \<Rightarrow> ('k \<times> 'v) list" where
  "dict_update d other = fold (\<lambda>(k, v). AList.update k v) other d"

definition make_attrs :: "env \<Rightarrow> attrs option \<Rightarrow> module option \<Rightarrow> attrs" where
  "make_attrs e attrs library =
     (let default_attrs = [(''created_at'', PyStr (utcnow_isoformat e))];
          default_attrs =
            (case library of
               None \<Rightarrow> default_attrs
             | Some lib \<Rightarrow>
                 (let library_name = mod_name lib;
                      default_attrs =
                        AList.update ''inference_library'' (PyStr library_name) default_attrs
                  in case get_distribution_version e library_name of
                       Some version \<Rightarrow>
                         AList.update ''inference_library_version'' (PyStr version) default_attrs
                     | None \<Rightarrow>
                         (case mod_version lib of
                            Some version \<Rightarrow>
                              AList.update ''inference_library_version'' version default_attrs
                          | None \<Rightarrow> default_attrs)))
      in case attrs of None \<Rightarrow> default_attrs | Some a \<Rightarrow> dict_update default_attrs a)"






text \<open>
  The count of line 73 for the default dims that \<^verbatim>\<open>numpy_to_data_array\<close> passes: the
  entries of \<^verbatim>\<open>dims\<close> that are neither \<open>chain\<close> nor \<open>draw\<close> (a \<open>None\<close> entry counts).
\<close>

definition non_default :: "string option list \<Rightarrow> nat" where
  "non_default ds = length (filter (\<lambda>dim. dim \<notin> Some ` set [''chain'', ''draw'']) ds)"

section \<open>\<^verbatim>\<open>generate_dims_coords\<close> on a store of objects\<close>

text \<open>
  The caller's \<^verbatim>\<open>dims\<close> list and \<^verbatim>\<open>coords\<close> dictionary are mutable objects, and the
  function appends to a list and stores into a dictionary. Here the objects live in a
  store, a list of objects in which the address of an object is its position: a list of
  names, a dictionary from names to the addresses of coordinate sequences, or a
  coordinate sequence. Allocation appends to the store, so a new object never takes the
  address of an old one.
\<close>

datatype obj =
    ListObj "string option list"
  | DictObj "(string \<times> nat) list"
  | SeqObj "pyval list"

type_synonym store = "obj list"

definition alloc :: "store \<Rightarrow> obj \<Rightarrow> store \<times> nat" where
  "alloc s ob = (s @ [ob], length s)"

text \<open>Reading an object of a given kind; \<open>None\<close> for a wrong address.\<close>

definition get_list :: "store \<Rightarrow> nat \<Rightarrow> string option list option" where
  "get_list s r = (if r < length s then (case s ! r of ListObj xs \<Rightarrow> Some xs | _ \<Rightarrow> None) else None)"

definition get_dict :: "store \<Rightarrow> nat \<Rightarrow> (string \<times> nat) list option" where
  "get_dict s r = (if r < length s then (case s ! r of DictObj items \<Rightarrow> Some items | _ \<Rightarrow> None) else None)"

definition get_seq :: "store \<Rightarrow> nat \<Rightarrow> pyval list option" where
  "get_seq s r = (if r < length s then (case s ! r of SeqObj xs \<Rightarrow> Some xs | _ \<Rightarrow> None) else None)"

text \<open>The value of a dictionary: its keys with the sequences that its addresses hold.\<close>

definition read_dict :: "store \<Rightarrow> nat \<Rightarrow> CoordSpec option" where
  "read_dict s r =
     (case get_dict s r of
        None \<Rightarrow> None
      | Some items \<Rightarrow> those (map (\<lambda>(k, a). map_option (Pair k) (get_seq s a)) items))"

text \<open>
  \<^verbatim>\<open>deepcopy\<close> (lines 90 and 91). The copy of a list of names is a new list object (the
  names are immutable). The copy of a dictionary is a new dictionary whose values are
  copies of the old values; the memo of \<^verbatim>\<open>deepcopy\<close> has a sequence that two keys share
  copied once. The order in which the new objects are allocated is immaterial.
\<close>

fun deepcopy_items ::
  "store \<Rightarrow> (nat \<times> nat) list \<Rightarrow> (string \<times> nat) list \<Rightarrow> (store \<times> (string \<times> nat) list) option"
where
  "deepcopy_items s memo [] = Some (s, [])"
| "deepcopy_items s memo ((k, a) # items) =
     (case map_of memo a of
        Some b \<Rightarrow>
          (case deepcopy_items s memo items of
             None \<Rightarrow> None
           | Some (s2, items') \<Rightarrow> Some (s2, (k, b) # items'))
      | None \<Rightarrow>
          (case get_seq s a of
             None \<Rightarrow> None
           | Some xs \<Rightarrow>
               (let (s1, b) = alloc s (SeqObj xs)
                in case deepcopy_items s1 ((a, b) # memo) items of
                     None \<Rightarrow> None
                   | Some (s2, items') \<Rightarrow> Some (s2, (k, b) # items'))))"

definition deepcopy_dict :: "store \<Rightarrow> nat \<Rightarrow> (store \<times> nat) option" where
  "deepcopy_dict s r =
     (case get_dict s r of
        None \<Rightarrow> None
      | Some items \<Rightarrow>
          (case deepcopy_items s [] items of
             None \<Rightarrow> None
           | Some (s1, items') \<Rightarrow> Some (alloc s1 (DictObj items'))))"

definition deepcopy_list :: "store \<Rightarrow> nat \<Rightarrow> (store \<times> nat) option" where
  "deepcopy_list s r =
     (case get_list s r of None \<Rightarrow> None | Some xs \<Rightarrow> Some (alloc s (ListObj xs)))"

text \<open>
  The loop of lines 93 to 102 on the two copies: \<^verbatim>\<open>dims.append\<close> and
  \<^verbatim>\<open>dims[idx] = ...\<close> write the list object at \<open>dims\<close> (the new contents are those of
  \<open>set_dim\<close>), \<^verbatim>\<open>utils.arange\<close> allocates the new sequence and
  \<^verbatim>\<open>coords[dim_name] = ...\<close> writes the dictionary object at \<open>coords\<close>.
\<close>

fun gdc_loop_store ::
  "string \<Rightarrow> nat \<Rightarrow> nat list \<Rightarrow> nat \<Rightarrow> nat \<Rightarrow> store \<Rightarrow> store option"
where
  "gdc_loop_store var_name idx [] dims coords s = Some s"
| "gdc_loop_store var_name idx (dim_len # shape) dims coords s =
     (case get_list s dims of
        None \<Rightarrow> None
      | Some ds \<Rightarrow>
          (let (ds', dim_name) = set_dim var_name idx ds;
               s = s[dims := ListObj ds']
           in case get_dict s coords of
                None \<Rightarrow> None
              | Some items \<Rightarrow>
                  (let s = (if dim_name \<notin> fst ` set items
                            then (let (s, a) = alloc s (SeqObj (arange dim_len))
                                  in s[coords := DictObj (AList.update dim_name a items)])
                            else s)
                   in gdc_loop_store var_name (idx + 1) shape dims coords s)))"

text \<open>
  The whole function. \<open>dims\<close> and \<open>coords\<close> are the addresses of the caller's objects,
  or \<open>None\<close>; lines 72 and 88 make a new empty object for \<open>None\<close>, line 103 builds a new
  dictionary. The result is the new store, the warnings and the addresses of the
  returned list and dictionary; it is \<open>None\<close> only when an address does not hold an
  object of its kind.
\<close>

definition generate_dims_coords_store ::
  "store \<Rightarrow> nat list \<Rightarrow> string \<Rightarrow> nat option \<Rightarrow> nat option \<Rightarrow> string list option
     \<Rightarrow> (store \<times> warning list \<times> nat \<times> nat) option"
where
  "generate_dims_coords_store s shape var_name dims coords default_dims =
     (let default_dims = (case default_dims of None \<Rightarrow> [] | Some d \<Rightarrow> d);
          (s, dims) = (case dims of None \<Rightarrow> alloc s (ListObj []) | Some r \<Rightarrow> (s, r))
      in case get_list s dims of
           None \<Rightarrow> None
         | Some ds \<Rightarrow>
             (let ws = (if length (filter (\<lambda>dim. dim \<notin> Some ` set default_dims) ds) > length shape
                        then [MoreDimsThanShape var_name (length ds) (length shape) default_dims]
                        else []);
                  (s, coords) = (case coords of None \<Rightarrow> alloc s (DictObj []) | Some r \<Rightarrow> (s, r))
              in case deepcopy_dict s coords of
                   None \<Rightarrow> None
                 | Some (s, coords) \<Rightarrow>
                     (case deepcopy_list s dims of
                        None \<Rightarrow> None
                      | Some (s, dims) \<Rightarrow>
                          (case gdc_loop_store var_name 0 shape dims coords s of
                             None \<Rightarrow> None
                           | Some s \<Rightarrow>
                               (case get_list s dims of
                                  None \<Rightarrow> None
                                | Some ds' \<Rightarrow>
                                    (case get_dict s coords of
                                       None \<Rightarrow> None
                                     | Some items \<Rightarrow>
                                         (let (s, coords) =
                                                alloc s (DictObj (filter (\<lambda>(key, coord).
                                                           \<exists>dim \<in> set ds'. Some key = dim) items))
                                          in Some (s, ws, dims, coords))))))))"

text \<open>
  Three relations for the proofs: a store keeps an earlier one when the earlier one is
  its prefix; a dictionary's items read as a coordinate map; and the memo of a copy in
  progress maps a copied sequence to an address with the same contents.
\<close>

definition keeps :: "store \<Rightarrow> store \<Rightarrow> bool" where
  "keeps s0 s \<longleftrightarrow> take (length s0) s = s0"

definition reads :: "store \<Rightarrow> (string \<times> nat) list \<Rightarrow> CoordSpec \<Rightarrow> bool" where
  "reads s items C \<longleftrightarrow> list_all2 (\<lambda>(k, a) (k', c). k' = k \<and> get_seq s a = Some c) items C"

definition memo_ok :: "store \<Rightarrow> (nat \<times> nat) list \<Rightarrow> bool" where
  "memo_ok s memo \<longleftrightarrow> (\<forall>a b. map_of memo a = Some b \<longrightarrow> get_seq s a \<noteq> None \<and> get_seq s b = get_seq s a)"

section \<open>Generated names\<close>

lemma digit_char_inj: "a < 10 \<Longrightarrow> b < 10 \<Longrightarrow> digit_char a = digit_char b \<Longrightarrow> a = b"
  unfolding digit_char_def
  by (auto simp: less_Suc_eq numeral_eq_Suc nth_Cons' split: if_splits)

lemma str_nat_nonempty: "str_nat n \<noteq> []"
  by (subst str_nat.simps) simp

lemma str_nat_inj: "str_nat n = str_nat m \<Longrightarrow> n = m"
proof (induction n arbitrary: m rule: str_nat.induct)
  case (1 n)
  show ?case
  proof (cases "n < 10")
    case True
    show ?thesis
    proof (cases "m < 10")
      case mt: True
      from 1(2) True mt have "digit_char n = digit_char m"
        by (simp add: str_nat.simps[of n] str_nat.simps[of m])
      then show ?thesis using True mt digit_char_inj by blast
    next
      case False
      with 1(2) True have "[digit_char n] = str_nat (m div 10) @ [digit_char (m mod 10)]"
        by (simp add: str_nat.simps[of n] str_nat.simps[of m])
      then show ?thesis using str_nat_nonempty[of "m div 10"] by auto
    qed
  next
    case False
    show ?thesis
    proof (cases "m < 10")
      case True
      with 1(2) False have "str_nat (n div 10) @ [digit_char (n mod 10)] = [digit_char m]"
        by (simp add: str_nat.simps[of n] str_nat.simps[of m])
      then show ?thesis using str_nat_nonempty[of "n div 10"] by auto
    next
      case mf: False
      with 1(2) False have e: "str_nat (n div 10) = str_nat (m div 10)"
          "digit_char (n mod 10) = digit_char (m mod 10)"
        by (simp_all add: str_nat.simps[of n] str_nat.simps[of m])
      from 1(1)[OF False e(1)] have d: "n div 10 = m div 10" .
      from e(2) have "n mod 10 = m mod 10" by (intro digit_char_inj) simp_all
      with d show ?thesis by (metis div_mult_mod_eq)
    qed
  qed
qed

lemma format_dim_name_inj: "format_dim_name v i = format_dim_name v j \<Longrightarrow> i = j"
  by (simp add: format_dim_name_def str_nat_inj)

lemma digit_char_cases: "d < 10 \<Longrightarrow> digit_char d \<in> set ''0123456789''"
  unfolding digit_char_def by (rule nth_mem) simp

lemma last_str_nat: "last (str_nat n) \<in> set ''0123456789''"
proof -
  have "last (str_nat n) = digit_char (n mod 10)"
    by (subst str_nat.simps) (simp add: str_nat_nonempty)
  then show ?thesis using digit_char_cases[of "n mod 10"] by simp
qed

lemma last_format_dim_name: "last (format_dim_name v i) \<in> set ''0123456789''"
  using last_str_nat[of i] by (simp add: format_dim_name_def str_nat_nonempty)

lemma format_dim_name_not_chain: "format_dim_name v i \<noteq> ''chain''"
proof
  assume "format_dim_name v i = ''chain''"
  then have "last (format_dim_name v i) = CHR ''n''" by simp
  then show False using last_format_dim_name[of v i] by simp
qed

lemma format_dim_name_not_draw: "format_dim_name v i \<noteq> ''draw''"
proof
  assume "format_dim_name v i = ''draw''"
  then have "last (format_dim_name v i) = CHR ''w''" by simp
  then show False using last_format_dim_name[of v i] by simp
qed

section \<open>The loop of \<^verbatim>\<open>generate_dims_coords\<close>\<close>

lemma update_fresh: "k \<notin> fst ` set al \<Longrightarrow> AList.update k v al = al @ [(k, v)]"
  by (induction al) auto

lemma set_dim_append: "length dims = idx \<Longrightarrow>
  set_dim v idx dims = (dims @ [Some (format_dim_name v idx)], format_dim_name v idx)"
  by (simp add: set_dim_def Let_def)

lemma gdc_loop_fresh:
  "length dims = idx \<Longrightarrow> (\<forall>j \<ge> idx. format_dim_name v j \<notin> fst ` set coords) \<Longrightarrow>
   gdc_loop v idx shape dims coords =
     (dims @ map (\<lambda>i. Some (format_dim_name v i)) [idx..<idx + length shape],
      coords @ map (\<lambda>i. (format_dim_name v i, arange (shape ! (i - idx)))) [idx..<idx + length shape])"
proof (induction shape arbitrary: idx dims coords)
  case Nil
  then show ?case by simp
next
  case (Cons dim_len shape)
  let ?n = "format_dim_name v idx"
  let ?dims = "dims @ [Some ?n]"
  let ?coords = "coords @ [(?n, arange dim_len)]"
  have fresh: "?n \<notin> fst ` set coords" using Cons.prems(2) by blast
  have step: "gdc_loop v idx (dim_len # shape) dims coords = gdc_loop v (idx + 1) shape ?dims ?coords"
    using fresh by (simp add: set_dim_append[OF Cons.prems(1)] update_fresh)
  have l: "length ?dims = idx + 1" using Cons.prems(1) by simp
  have k: "\<forall>j \<ge> idx + 1. format_dim_name v j \<notin> fst ` set ?coords"
  proof (intro allI impI)
    fix j assume a: "idx + 1 \<le> j"
    then have "format_dim_name v j \<noteq> ?n" using format_dim_name_inj[of v j idx] by auto
    moreover have "format_dim_name v j \<notin> fst ` set coords" using Cons.prems(2) a by simp
    ultimately show "format_dim_name v j \<notin> fst ` set ?coords" by auto
  qed
  have up: "[idx..<idx + length (dim_len # shape)] = idx # [idx + 1..<idx + 1 + length shape]"
    by (subst upt_rec) simp
  have m: "map (\<lambda>i. (format_dim_name v i, arange ((dim_len # shape) ! (i - idx)))) [idx + 1..<idx + 1 + length shape]
         = map (\<lambda>i. (format_dim_name v i, arange (shape ! (i - (idx + 1))))) [idx + 1..<idx + 1 + length shape]"
    by (rule map_cong) (auto simp: nth_Cons')
  show ?case
    unfolding step Cons.IH[OF l k] up using m by simp
qed

lemma set_dim_read:
  assumes "idx \<le> length dims" "set_dim v idx dims = (d', n)"
  shows "idx < length d'" "d' ! idx = Some n" "length d' = max (length dims) (idx + 1)"
    "\<And>i. i \<noteq> idx \<Longrightarrow> i < length dims \<Longrightarrow> d' ! i = dims ! i"
    "n = format_dim_name v idx \<or> (idx < length dims \<and> dims ! idx = Some n)"
  using assms
  by (auto simp: set_dim_def Let_def nth_append split: if_splits option.splits)

lemma gdc_loop_length:
  "idx \<le> length dims \<Longrightarrow>
   length (fst (gdc_loop v idx shape dims coords)) = max (length dims) (idx + length shape)"
proof (induction shape arbitrary: idx dims coords)
  case Nil
  then show ?case by simp
next
  case (Cons dim_len shape)
  obtain d' n where s: "set_dim v idx dims = (d', n)" by (cases "set_dim v idx dims")
  from set_dim_read(3)[OF Cons.prems s] have l: "length d' = max (length dims) (idx + 1)" .
  then have "idx + 1 \<le> length d'" by simp
  from Cons.IH[OF this] l show ?case by (simp add: s)
qed

lemma gdc_loop_keep_lookup:
  "map_of coords k = Some c \<Longrightarrow> map_of (snd (gdc_loop v idx shape dims coords)) k = Some c"
proof (induction shape arbitrary: idx dims coords)
  case Nil
  then show ?case by simp
next
  case (Cons dim_len shape)
  obtain d' n where s: "set_dim v idx dims = (d', n)" by (cases "set_dim v idx dims")
  let ?c = "if n \<notin> fst ` set coords then AList.update n (arange dim_len) coords else coords"
  have "map_of ?c k = Some c"
  proof (cases "n \<notin> fst ` set coords")
    case True
    then have "map_of coords n = None" by (simp add: map_of_eq_None_iff)
    with Cons.prems have "k \<noteq> n" by auto
    with True Cons.prems show ?thesis by (simp add: update_conv')
  next
    case False
    with Cons.prems show ?thesis by simp
  qed
  from Cons.IH[OF this] show ?case by (simp add: s)
qed

lemma gdc_loop_distinct:
  "distinct (map fst coords) \<Longrightarrow> distinct (map fst (snd (gdc_loop v idx shape dims coords)))"
proof (induction shape arbitrary: idx dims coords)
  case Nil
  then show ?case by simp
next
  case (Cons dim_len shape)
  obtain d' n where s: "set_dim v idx dims = (d', n)" by (cases "set_dim v idx dims")
  let ?c = "if n \<notin> fst ` set coords then AList.update n (arange dim_len) coords else coords"
  have "distinct (map fst ?c)"
    using Cons.prems by (simp add: distinct_update)
  from Cons.IH[OF this] show ?case by (simp add: s)
qed

lemma keys_update: "fst ` set (AList.update k v al) = insert k (fst ` set al)"
  by (induction al) auto

lemma gdc_loop_below:
  "idx \<le> length dims \<Longrightarrow> i < idx \<Longrightarrow> fst (gdc_loop v idx shape dims coords) ! i = dims ! i"
proof (induction shape arbitrary: idx dims coords)
  case Nil
  then show ?case by simp
next
  case (Cons dim_len shape)
  obtain d1 n where s: "set_dim v idx dims = (d1, n)" by (cases "set_dim v idx dims")
  note sd = set_dim_read[OF Cons.prems(1) s]
  have le: "idx + 1 \<le> length d1" using sd(1) by simp
  have lt: "i < idx + 1" using Cons.prems(2) by simp
  have "d1 ! i = dims ! i" using sd(4)[of i] Cons.prems by simp
  with Cons.IH[OF le lt] show ?case by (simp add: s)
qed

lemma gdc_loop_above:
  "idx \<le> length dims \<Longrightarrow> idx + length shape \<le> i \<Longrightarrow> i < length dims \<Longrightarrow>
   fst (gdc_loop v idx shape dims coords) ! i = dims ! i"
proof (induction shape arbitrary: idx dims coords)
  case Nil
  then show ?case by simp
next
  case (Cons dim_len shape)
  obtain d1 n where s: "set_dim v idx dims = (d1, n)" by (cases "set_dim v idx dims")
  note sd = set_dim_read[OF Cons.prems(1) s]
  have le: "idx + 1 \<le> length d1" using sd(1) by simp
  have a: "idx + 1 + length shape \<le> i" using Cons.prems(2) by simp
  have b: "i < length d1" using sd(3) Cons.prems(3) by simp
  have "d1 ! i = dims ! i" using sd(4)[of i] Cons.prems by simp
  with Cons.IH[OF le a b] show ?case by (simp add: s)
qed

lemma gdc_loop_keys_mono:
  "k \<in> fst ` set coords \<Longrightarrow> k \<in> fst ` set (snd (gdc_loop v idx shape dims coords))"
proof (induction shape arbitrary: idx dims coords)
  case Nil
  then show ?case by simp
next
  case (Cons dim_len shape)
  obtain d1 n where s: "set_dim v idx dims = (d1, n)" by (cases "set_dim v idx dims")
  let ?c = "if n \<notin> fst ` set coords then AList.update n (arange dim_len) coords else coords"
  have "k \<in> fst ` set ?c" using Cons.prems by (simp add: keys_update)
  from Cons.IH[OF this] show ?case by (simp add: s)
qed

lemma gdc_loop_named:
  "idx \<le> length dims \<Longrightarrow> idx \<le> i \<Longrightarrow> i < idx + length shape \<Longrightarrow>
   \<exists>n. fst (gdc_loop v idx shape dims coords) ! i = Some n
       \<and> n \<in> fst ` set (snd (gdc_loop v idx shape dims coords))"
proof (induction shape arbitrary: idx dims coords)
  case Nil
  then show ?case by simp
next
  case (Cons dim_len shape)
  obtain d1 n where s: "set_dim v idx dims = (d1, n)" by (cases "set_dim v idx dims")
  let ?c = "if n \<notin> fst ` set coords then AList.update n (arange dim_len) coords else coords"
  note sd = set_dim_read[OF Cons.prems(1) s]
  have le: "idx + 1 \<le> length d1" using sd(1) by simp
  have step: "gdc_loop v idx (dim_len # shape) dims coords = gdc_loop v (idx + 1) shape d1 ?c"
    by (simp add: s)
  show ?case
  proof (cases "i = idx")
    case True
    have "fst (gdc_loop v (idx + 1) shape d1 ?c) ! idx = d1 ! idx"
      by (rule gdc_loop_below[OF le]) simp
    then have 1: "fst (gdc_loop v (idx + 1) shape d1 ?c) ! i = Some n" using sd(2) True by simp
    have "n \<in> fst ` set ?c" by (simp add: keys_update)
    then have 2: "n \<in> fst ` set (snd (gdc_loop v (idx + 1) shape d1 ?c))"
      by (rule gdc_loop_keys_mono)
    from 1 2 show ?thesis unfolding step by blast
  next
    case False
    then have a: "idx + 1 \<le> i" using Cons.prems(2) by simp
    have b: "i < idx + 1 + length shape" using Cons.prems(3) by simp
    from Cons.IH[OF le a b] show ?thesis unfolding step .
  qed
qed

lemma generate_dims_coords_unfold:
  assumes "generate_dims_coords shape v dims coords dd = (ws, d', c')"
  defines "D \<equiv> (case dims of None \<Rightarrow> [] | Some d \<Rightarrow> d)"
    and "C \<equiv> (case coords of None \<Rightarrow> [] | Some c \<Rightarrow> c)"
  shows "d' = fst (gdc_loop v 0 shape D C)"
    and "c' = filter (\<lambda>(key, coord). Some key \<in> set d') (snd (gdc_loop v 0 shape D C))"
  using assms
  by (auto simp: generate_dims_coords_def Let_def split: prod.splits intro!: filter_cong)

lemma gdc_loop_keys_upper:
  "idx \<le> length dims \<Longrightarrow> k \<in> fst ` set (snd (gdc_loop v idx shape dims coords)) \<Longrightarrow>
   k \<in> fst ` set coords
   \<or> (\<exists>i. idx \<le> i \<and> i < idx + length shape \<and> fst (gdc_loop v idx shape dims coords) ! i = Some k)"
proof (induction shape arbitrary: idx dims coords)
  case Nil
  then show ?case by simp
next
  case (Cons dim_len shape)
  obtain d1 n where s: "set_dim v idx dims = (d1, n)" by (cases "set_dim v idx dims")
  let ?c = "if n \<notin> fst ` set coords then AList.update n (arange dim_len) coords else coords"
  note sd = set_dim_read[OF Cons.prems(1) s]
  have le: "idx + 1 \<le> length d1" using sd(1) by simp
  have step: "gdc_loop v idx (dim_len # shape) dims coords = gdc_loop v (idx + 1) shape d1 ?c"
    by (simp add: s)
  have k: "k \<in> fst ` set (snd (gdc_loop v (idx + 1) shape d1 ?c))"
    using Cons.prems(2) unfolding step .
  have at: "fst (gdc_loop v (idx + 1) shape d1 ?c) ! idx = Some n"
    using gdc_loop_below[OF le, of idx v shape ?c] sd(2) by simp
  from Cons.IH[OF le k] show ?case
  proof
    assume "k \<in> fst ` set ?c"
    then have "k = n \<or> k \<in> fst ` set coords" by (auto simp: keys_update split: if_splits)
    then show ?thesis
    proof
      assume "k = n"
      with at have "idx \<le> idx \<and> idx < idx + length (dim_len # shape)
          \<and> fst (gdc_loop v idx (dim_len # shape) dims coords) ! idx = Some k"
        unfolding step by simp
      then show ?thesis by blast
    next
      assume "k \<in> fst ` set coords"
      then show ?thesis by simp
    qed
  next
    assume "\<exists>i. idx + 1 \<le> i \<and> i < idx + 1 + length shape
        \<and> fst (gdc_loop v (idx + 1) shape d1 ?c) ! i = Some k"
    then obtain i where "idx + 1 \<le> i" "i < idx + 1 + length shape"
      "fst (gdc_loop v (idx + 1) shape d1 ?c) ! i = Some k" by blast
    then have "idx \<le> i \<and> i < idx + length (dim_len # shape)
        \<and> fst (gdc_loop v idx (dim_len # shape) dims coords) ! i = Some k"
      unfolding step by simp
    then show ?thesis by blast
  qed
qed

section \<open>The steps of \<^verbatim>\<open>numpy_to_data_array\<close>\<close>

lemma index_coords_Inr:
  "index_coords coords dims acc = Inr cs \<Longrightarrow>
   \<exists>names. those dims = Some names \<and> dims = map Some names
     \<and> set names \<subseteq> fst ` set coords
     \<and> fst ` set cs = fst ` set acc \<union> set names
     \<and> (distinct (map fst acc) \<longrightarrow> distinct (map fst cs))
     \<and> (\<forall>k. map_of cs k = (if k \<in> set names then map_of coords k else map_of acc k))"
proof (induction dims arbitrary: acc)
  case Nil
  then show ?case by simp
next
  case (Cons key dims)
  from Cons.prems obtain k c where k: "key = Some k" "map_of coords k = Some c"
    and r: "index_coords coords dims (AList.update k (xr_IndexVariable k c) acc) = Inr cs"
    by (auto split: option.splits)
  from Cons.IH[OF r] obtain names where n: "those dims = Some names" "dims = map Some names"
    "set names \<subseteq> fst ` set coords"
    "fst ` set cs = fst ` set (AList.update k (xr_IndexVariable k c) acc) \<union> set names"
    "distinct (map fst (AList.update k (xr_IndexVariable k c) acc)) \<longrightarrow> distinct (map fst cs)"
    "\<forall>k'. map_of cs k' = (if k' \<in> set names then map_of coords k'
        else map_of (AList.update k (xr_IndexVariable k c) acc) k')"
    by blast
  have kin: "k \<in> fst ` set coords" using map_of_SomeD[OF k(2)] by force
  have 1: "those (key # dims) = Some (k # names)" using k n by simp
  have 2: "key # dims = map Some (k # names)" using k n by simp
  have 3: "set (k # names) \<subseteq> fst ` set coords" using n(3) kin by simp
  have 4: "fst ` set cs = fst ` set acc \<union> set (k # names)" using n(4) by (simp add: keys_update)
  have 5: "distinct (map fst acc) \<longrightarrow> distinct (map fst cs)" using n(5) by (simp add: distinct_update)
  have 6: "\<forall>k'. map_of cs k' = (if k' \<in> set (k # names) then map_of coords k' else map_of acc k')"
    using n(6) k(2) by (simp add: update_conv' xr_IndexVariable_def)
  from 1 2 3 4 5 6 show ?case by (intro exI[of _ "k # names"] conjI)
qed

lemma xr_DataArray_Inr:
  assumes "xr_DataArray ary cs ds = Inr da"
  shows "da = \<lparr>da_values = ary, da_coords = cs, da_dims = ds\<rparr>"
    and "length ds = length (nd_shape ary)"
    and "\<And>i c. i < length ds \<Longrightarrow> map_of cs (ds ! i) = Some c \<Longrightarrow> length c = nd_shape ary ! i"
proof -
  from assms have l: "length ds = length (nd_shape ary)"
    by (auto simp: xr_DataArray_def split: if_splits)
  from assms l have f: "find (\<lambda>(d, n). case map_of cs d of None \<Rightarrow> False | Some c \<Rightarrow> length c \<noteq> n)
                     (zip ds (nd_shape ary)) = None"
    by (auto simp: xr_DataArray_def split: if_splits option.splits)
  from assms l f show "da = \<lparr>da_values = ary, da_coords = cs, da_dims = ds\<rparr>"
    by (simp add: xr_DataArray_def)
  show "length ds = length (nd_shape ary)" by (rule l)
  fix i c assume i: "i < length ds" and m: "map_of cs (ds ! i) = Some c"
  from i l have "(ds ! i, nd_shape ary ! i) \<in> set (zip ds (nd_shape ary))"
    by (metis in_set_zip fst_conv snd_conv)
  with f have "\<not> (case map_of cs (ds ! i) of None \<Rightarrow> False | Some c \<Rightarrow> length c \<noteq> nd_shape ary ! i)"
    unfolding find_None_iff by blast
  with m show "length c = nd_shape ary ! i" by simp
qed

lemma numpy_to_data_array_Inr:
  assumes "numpy_to_data_array ary v coords dims = (ws, Inr da)"
  obtains n_chains n_samples shape ws2 d c cs ds where
    "nd_shape (two_de ary) = n_chains # n_samples # shape"
    "generate_dims_coords shape v dims coords (Some [''chain'', ''draw'']) = (ws2, d, c)"
    "ws = (if n_chains > n_samples then [MoreChainsThanDraws n_chains n_samples] else []) @ ws2"
    "index_coords (add_default_coords n_chains n_samples c) (add_default_dims d) [] = Inr cs"
    "those (add_default_dims d) = Some ds"
    "xr_DataArray (two_de ary) cs ds = Inr da"
  using assms
  by (auto simp: numpy_to_data_array_def Let_def
      split: list.splits prod.splits sum.splits option.splits)

lemma those_map_Some: "those (map Some xs) = Some xs"
  by (induction xs) auto

lemma index_coords_append:
  "distinct (map fst kvs) \<Longrightarrow> fst ` set kvs \<inter> fst ` set acc = {} \<Longrightarrow>
   (\<forall>(k, c) \<in> set kvs. map_of coords k = Some c) \<Longrightarrow>
   index_coords coords (map (\<lambda>(k, c). Some k) kvs) acc = Inr (acc @ kvs)"
proof (induction kvs arbitrary: acc)
  case Nil
  then show ?case by simp
next
  case (Cons kv kvs)
  obtain k c where kv: "kv = (k, c)" by (cases kv)
  have m: "map_of coords k = Some c" using Cons.prems(3) kv by simp
  have fresh: "k \<notin> fst ` set acc" using Cons.prems(2) kv by auto
  have u: "AList.update k (xr_IndexVariable k c) acc = acc @ [(k, c)]"
    using fresh by (simp add: update_fresh xr_IndexVariable_def)
  have d: "distinct (map fst kvs)" using Cons.prems(1) by simp
  have i: "fst ` set kvs \<inter> fst ` set (acc @ [(k, c)]) = {}"
    using Cons.prems(1,2) kv by auto
  have a: "\<forall>(k, c) \<in> set kvs. map_of coords k = Some c" using Cons.prems(3) by simp
  from Cons.IH[OF d i a] show ?case by (simp add: kv m u)
qed

lemma map_of_tabulate:
  "inj_on f (set xs) \<Longrightarrow> j \<in> set xs \<Longrightarrow> map_of (map (\<lambda>i. (f i, g i)) xs) (f j) = Some (g j)"
  by (induction xs) (auto simp: inj_on_def)

lemma generate_dims_coords_None:
  "generate_dims_coords S v None None dd =
     ([], map (\<lambda>i. Some (format_dim_name v i)) [0..<length S],
          map (\<lambda>i. (format_dim_name v i, arange (S ! i))) [0..<length S])"
proof -
  have l: "gdc_loop v 0 S [] [] =
     (map (\<lambda>i. Some (format_dim_name v i)) [0..<length S],
      map (\<lambda>i. (format_dim_name v i, arange (S ! i))) [0..<length S])"
    using gdc_loop_fresh[where dims="[]" and idx=0 and coords="[]" and v=v and shape=S]
    by simp
  show ?thesis
    by (simp add: generate_dims_coords_def l filter_map comp_def)
qed

lemma two_de_rank2: "nd_shape ary = c # d # S \<Longrightarrow> two_de ary = ary"
  by (simp add: two_de_def)

lemma numpy_to_data_array_steps:
  assumes "nd_shape (two_de ary) = c # d # S"
    and "generate_dims_coords S v dims coords (Some [''chain'', ''draw'']) = (ws2, dd, cc)"
    and "index_coords (add_default_coords c d cc) (add_default_dims dd) [] = Inr cs"
    and "those (add_default_dims dd) = Some ds"
  shows "numpy_to_data_array ary v coords dims =
     ((if c > d then [MoreChainsThanDraws c d] else []) @ ws2, xr_DataArray (two_de ary) cs ds)"
  using assms by (simp add: numpy_to_data_array_def Let_def)

lemma numpy_to_data_array_None:
  assumes sh: "nd_shape ary = c # d # S"
  shows "numpy_to_data_array ary v None None =
     ((if c > d then [MoreChainsThanDraws c d] else []),
      Inr \<lparr>da_values = ary,
           da_coords = (''chain'', arange c) # (''draw'', arange d) #
                       map (\<lambda>i. (format_dim_name v i, arange (S ! i))) [0..<length S],
           da_dims = ''chain'' # ''draw'' # map (format_dim_name v) [0..<length S]\<rparr>)"
proof -
  let ?names = "map (format_dim_name v) [0..<length S]"
  let ?cN = "map (\<lambda>i. (format_dim_name v i, arange (S ! i))) [0..<length S]"
  let ?kvs = "(''chain'', arange c) # (''draw'', arange d) # ?cN"
  have keysN: "fst ` set ?cN = set ?names" by force
  have nch: "''chain'' \<notin> set ?names"
  proof
    assume "''chain'' \<in> set ?names"
    then obtain i where "format_dim_name v i = ''chain''" by auto
    then show False using format_dim_name_not_chain[of v i] by simp
  qed
  have ndr: "''draw'' \<notin> set ?names"
  proof
    assume "''draw'' \<in> set ?names"
    then obtain i where "format_dim_name v i = ''draw''" by auto
    then show False using format_dim_name_not_draw[of v i] by simp
  qed
  have dims: "add_default_dims (map Some ?names) = Some ''chain'' # Some ''draw'' # map Some ?names"
    using nch ndr by (auto simp: add_default_dims_def Let_def)
  have kc: "''chain'' \<notin> fst ` set ?cN" using nch unfolding keysN .
  have c1: "AList.update ''chain'' (arange c) ?cN = ?cN @ [(''chain'', arange c)]"
    using kc by (rule update_fresh)
  have kd: "''draw'' \<notin> fst ` set (?cN @ [(''chain'', arange c)])"
  proof -
    have "''draw'' \<notin> fst ` set ?cN" using ndr unfolding keysN .
    then show ?thesis by simp
  qed
  have c2: "AList.update ''draw'' (arange d) (?cN @ [(''chain'', arange c)])
            = (?cN @ [(''chain'', arange c)]) @ [(''draw'', arange d)]"
    using kd by (rule update_fresh)
  have coords: "add_default_coords c d ?cN = ?cN @ [(''chain'', arange c), (''draw'', arange d)]"
    unfolding add_default_coords_def Let_def if_P[OF kc] c1 if_P[OF kd] c2 by simp
  have inj: "inj_on (format_dim_name v) (set [0..<length S])"
    using format_dim_name_inj by (auto simp: inj_on_def)
  have distN: "distinct ?names" using inj by (simp add: distinct_map)
  have dist: "distinct (map fst ?kvs)"
    using distN nch ndr by (simp add: comp_def)
  have lookN: "\<forall>(k, x) \<in> set ?cN. map_of (?cN @ [(''chain'', arange c), (''draw'', arange d)]) k = Some x"
  proof -
    have "\<And>j. j < length S \<Longrightarrow> map_of ?cN (format_dim_name v j) = Some (arange (S ! j))"
      using map_of_tabulate[OF inj, of _ "\<lambda>i. arange (S ! i)"] by simp
    then show ?thesis by (auto simp: map_add_def)
  qed
  have look: "\<forall>(k, x) \<in> set ?kvs. map_of (?cN @ [(''chain'', arange c), (''draw'', arange d)]) k = Some x"
  proof -
    have "map_of ?cN ''chain'' = None" "map_of ?cN ''draw'' = None"
      using nch ndr keysN by (simp_all add: map_of_eq_None_iff)
    then have "map_of (?cN @ [(''chain'', arange c), (''draw'', arange d)]) ''chain'' = Some (arange c)"
      "map_of (?cN @ [(''chain'', arange c), (''draw'', arange d)]) ''draw'' = Some (arange d)"
      by (simp_all add: map_add_def)
    with lookN show ?thesis by simp
  qed
  have ic: "index_coords (?cN @ [(''chain'', arange c), (''draw'', arange d)])
              (Some ''chain'' # Some ''draw'' # map Some ?names) [] = Inr ?kvs"
    using index_coords_append[OF dist _ look, of "[]"] by (simp add: comp_def)
  have th: "those (Some ''chain'' # Some ''draw'' # map Some ?names) = Some (''chain'' # ''draw'' # ?names)"
    using those_map_Some[of "''chain'' # ''draw'' # ?names"] by simp
  have tab: "\<And>j. j < length S \<Longrightarrow> map_of ?kvs (format_dim_name v j) = Some (arange (S ! j))"
  proof -
    fix j assume j: "j < length S"
    have "map_of ?cN (format_dim_name v j) = Some (arange (S ! j))"
      using map_of_tabulate[OF inj, of j "\<lambda>i. arange (S ! i)"] j by simp
    moreover have "map_of ?kvs (format_dim_name v j) = map_of ?cN (format_dim_name v j)"
      using format_dim_name_not_chain[of v j] format_dim_name_not_draw[of v j]
      by (simp del: map_of_map)
    ultimately show "map_of ?kvs (format_dim_name v j) = Some (arange (S ! j))" by simp
  qed
  have fnd: "find (\<lambda>(dn, n). case map_of ?kvs dn of None \<Rightarrow> False | Some x \<Rightarrow> length x \<noteq> n)
                (zip (''chain'' # ''draw'' # ?names) (c # d # S)) = None"
    unfolding find_None_iff
  proof (intro notI, elim exE conjE)
    fix p
    assume p: "p \<in> set (zip (''chain'' # ''draw'' # ?names) (c # d # S))"
      and bad: "(\<lambda>(dn, n). case map_of ?kvs dn of None \<Rightarrow> False | Some x \<Rightarrow> length x \<noteq> n) p"
    from p have "p = (''chain'', c) \<or> p = (''draw'', d) \<or> p \<in> set (zip ?names S)" by simp
    then have "map_of ?kvs (fst p) = Some (arange (snd p))"
    proof (elim disjE)
      assume "p = (''chain'', c)"
      then show ?thesis by simp
    next
      assume "p = (''draw'', d)"
      then show ?thesis by simp
    next
      assume "p \<in> set (zip ?names S)"
      then obtain j where j0: "j < length (zip ?names S)" "zip ?names S ! j = p"
        unfolding in_set_conv_nth by blast
      from j0(1) have jl: "j < length S" by simp
      from j0 jl have "p = (?names ! j, S ! j)" by (simp del: nth_map)
      then have j: "j < length S" "fst p = ?names ! j" "snd p = S ! j" using jl by simp_all
      from j(1,2) have "fst p = format_dim_name v j" by simp
      with tab[OF j(1)] j(3) show ?thesis by (simp only:)
    qed
    with bad show False by (simp add: case_prod_beta arange_def)
  qed
  have xr: "xr_DataArray ary ?kvs (''chain'' # ''draw'' # ?names) =
      Inr \<lparr>da_values = ary, da_coords = ?kvs, da_dims = ''chain'' # ''draw'' # ?names\<rparr>"
    unfolding xr_DataArray_def using sh fnd by simp
  have g: "generate_dims_coords S v None None (Some [''chain'', ''draw'']) = ([], map Some ?names, ?cN)"
    by (simp add: generate_dims_coords_None comp_def)
  have sh2: "nd_shape (two_de ary) = c # d # S" using sh by (simp add: two_de_rank2)
  have ic2: "index_coords (add_default_coords c d ?cN) (add_default_dims (map Some ?names)) [] = Inr ?kvs"
    unfolding coords dims by (rule ic)
  have th2: "those (add_default_dims (map Some ?names)) = Some (''chain'' # ''draw'' # ?names)"
    unfolding dims by (rule th)
  show ?thesis
    unfolding numpy_to_data_array_steps[OF sh2 g ic2 th2] two_de_rank2[OF sh] xr by simp
qed

lemma add_default_dims_eq:
  "add_default_dims d =
     (if Some ''chain'' \<in> set d then [] else [Some ''chain'']) @
     (if Some ''draw'' \<in> set d then [] else [Some ''draw'']) @ d"
  by (simp add: add_default_dims_def Let_def)

section \<open>Surplus dims\<close>

lemma filter_update_same:
  "i < length xs \<Longrightarrow> P (xs ! i) = P y \<Longrightarrow> length (filter P (xs[i := y])) = length (filter P xs)"
proof (induction xs arbitrary: i)
  case Nil
  then show ?case by simp
next
  case (Cons x xs)
  then show ?case by (cases i) auto
qed

lemma set_dim_non_default:
  assumes "set_dim v idx dims = (d', n)"
  shows "non_default dims \<le> non_default d'"
proof (cases "length dims < idx + 1")
  case True
  with assms have "d' = dims @ [Some (format_dim_name v idx)]"
    by (auto simp: set_dim_def Let_def)
  then show ?thesis by (simp add: non_default_def)
next
  case False
  show ?thesis
  proof (cases "dims ! idx")
    case None
    with assms False have d: "d' = dims[idx := Some (format_dim_name v idx)]"
      by (auto simp: set_dim_def Let_def)
    have "length (filter (\<lambda>dim. dim \<notin> Some ` set [''chain'', ''draw''])
              (dims[idx := Some (format_dim_name v idx)]))
        = length (filter (\<lambda>dim. dim \<notin> Some ` set [''chain'', ''draw'']) dims)"
    proof (rule filter_update_same)
      show "idx < length dims" using False by simp
      show "(dims ! idx \<notin> Some ` set [''chain'', ''draw'']) =
            (Some (format_dim_name v idx) \<notin> Some ` set [''chain'', ''draw''])"
        using None format_dim_name_not_chain[of v idx] format_dim_name_not_draw[of v idx]
        by auto
    qed
    then show ?thesis unfolding d non_default_def by simp
  next
    case (Some a)
    with assms False have "d' = dims" by (auto simp: set_dim_def Let_def)
    then show ?thesis by simp
  qed
qed

lemma gdc_loop_non_default:
  "non_default dims \<le> non_default (fst (gdc_loop v idx shape dims coords))"
proof (induction shape arbitrary: idx dims coords)
  case Nil
  then show ?case by simp
next
  case (Cons dim_len shape)
  obtain d1 n where s: "set_dim v idx dims = (d1, n)" by (cases "set_dim v idx dims")
  let ?c = "if n \<notin> fst ` set coords then AList.update n (arange dim_len) coords else coords"
  have "non_default dims \<le> non_default d1" using s by (rule set_dim_non_default)
  also have "\<dots> \<le> non_default (fst (gdc_loop v (idx + 1) shape d1 ?c))" by (rule Cons.IH)
  finally show ?case by (simp add: s)
qed

lemma length_ge_non_default_plus2:
  assumes "Some ''chain'' \<in> set ds" "Some ''draw'' \<in> set ds"
  shows "non_default ds + 2 \<le> length ds"
proof -
  let ?P = "\<lambda>dim. dim \<in> Some ` set [''chain'', ''draw'']"
  have "{Some ''chain'', Some ''draw''} \<subseteq> set (filter ?P ds)" using assms by auto
  then have "card {Some ''chain'', Some ''draw''} \<le> card (set (filter ?P ds))"
    by (intro card_mono) auto
  also have "\<dots> \<le> length (filter ?P ds)" by (rule card_length)
  finally have two: "2 \<le> length (filter ?P ds)" by simp
  have "length ds = length (filter ?P ds) + length (filter (\<lambda>x. \<not> ?P x) ds)"
    by (rule sum_length_filter_compl[symmetric])
  with two show ?thesis unfolding non_default_def by simp
qed

lemma add_default_dims_has:
  "Some ''chain'' \<in> set (add_default_dims d)" "Some ''draw'' \<in> set (add_default_dims d)"
  by (simp_all add: add_default_dims_eq)

lemma add_default_dims_non_default: "non_default d \<le> non_default (add_default_dims d)"
  by (simp add: add_default_dims_eq non_default_def)

lemma surplus_dims_fail:
  assumes sh: "nd_shape (two_de ary) = c # d # S"
    and many: "length S < non_default (case dims of None \<Rightarrow> [] | Some ds \<Rightarrow> ds)"
  shows "\<exists>e. snd (numpy_to_data_array ary v coords dims) = Inl e"
proof (cases "snd (numpy_to_data_array ary v coords dims)")
  case (Inl e)
  then show ?thesis by blast
next
  case (Inr da)
  then have r: "numpy_to_data_array ary v coords dims = (fst (numpy_to_data_array ary v coords dims), Inr da)"
    by (metis prod.collapse)
  from r obtain n_chains n_samples shape ws2 dd cc cs ds where
    sh': "nd_shape (two_de ary) = n_chains # n_samples # shape"
    and g: "generate_dims_coords shape v dims coords (Some [''chain'', ''draw'']) = (ws2, dd, cc)"
    and ic: "index_coords (add_default_coords n_chains n_samples cc) (add_default_dims dd) [] = Inr cs"
    and th: "those (add_default_dims dd) = Some ds"
    and xr: "xr_DataArray (two_de ary) cs ds = Inr da"
    by (rule numpy_to_data_array_Inr)
  have S: "shape = S" using sh sh' by simp
  let ?D = "case dims of None \<Rightarrow> [] | Some ds \<Rightarrow> ds"
  have "dd = fst (gdc_loop v 0 shape ?D (case coords of None \<Rightarrow> [] | Some c \<Rightarrow> c))"
    using generate_dims_coords_unfold(1)[OF g] .
  then have "non_default ?D \<le> non_default dd" using gdc_loop_non_default by simp
  also have "\<dots> \<le> non_default (add_default_dims dd)" by (rule add_default_dims_non_default)
  finally have 1: "length S < non_default (add_default_dims dd)" using many by simp
  have 2: "non_default (add_default_dims dd) + 2 \<le> length (add_default_dims dd)"
    by (rule length_ge_non_default_plus2) (rule add_default_dims_has)+
  from index_coords_Inr[OF ic] th have "add_default_dims dd = map Some ds" by auto
  then have 3: "length (add_default_dims dd) = length ds" by simp
  have 4: "length ds = length S + 2" using xr_DataArray_Inr(2)[OF xr] sh by simp
  from 1 2 3 4 show ?thesis by simp
qed

lemma generate_dims_coords_fst:
  "fst (generate_dims_coords shape var_name dims coords default_dims) =
     (if length shape < length (filter (\<lambda>dim. dim \<notin> Some ` set (case default_dims of None \<Rightarrow> [] | Some d \<Rightarrow> d))
                                  (case dims of None \<Rightarrow> [] | Some d \<Rightarrow> d))
      then [MoreDimsThanShape var_name (length (case dims of None \<Rightarrow> [] | Some d \<Rightarrow> d))
              (length shape) (case default_dims of None \<Rightarrow> [] | Some d \<Rightarrow> d)]
      else [])"
  by (simp add: generate_dims_coords_def Let_def split: prod.splits)

lemma numpy_to_data_array_fst:
  "nd_shape (two_de ary) = n_chains # n_samples # S \<Longrightarrow>
   fst (numpy_to_data_array ary v cs ds) =
     (if n_chains > n_samples then [MoreChainsThanDraws n_chains n_samples] else []) @
     fst (generate_dims_coords S v ds cs (Some [''chain'', ''draw'']))"
  by (simp add: numpy_to_data_array_def Let_def split: prod.splits)

lemma surplus_dims_kept:
  assumes "length shape < length (filter P (case dims of None \<Rightarrow> [] | Some d \<Rightarrow> d))"
  shows "length shape < length (fst (snd (generate_dims_coords shape var_name dims coords default_dims)))"
proof -
  let ?D = "case dims of None \<Rightarrow> [] | Some d \<Rightarrow> d"
  obtain ws d' c' where g: "generate_dims_coords shape var_name dims coords default_dims = (ws, d', c')"
    by (cases "generate_dims_coords shape var_name dims coords default_dims")
  have "length shape < length ?D"
    using assms length_filter_le[of P ?D] by linarith
  moreover have "length d' = max (length ?D) (length shape)"
    unfolding generate_dims_coords_unfold(1)[OF g]
    using gdc_loop_length[of 0 ?D var_name shape] by (simp add: max.commute)
  ultimately show ?thesis by (simp add: g)
qed

section \<open>Attributes and dataset assembly\<close>

lemma map_of_rev_distinct: "distinct (map fst xs) \<Longrightarrow> map_of (rev xs) = map_of xs"
  using map_of_inject_set[of "rev xs" xs] by (simp add: rev_map[symmetric])

lemma map_of_dict_update: "map_of (dict_update d a) = map_of d ++ map_of (rev a)"
  unfolding dict_update_def
proof (induction a arbitrary: d)
  case Nil
  then show ?case by simp
next
  case (Cons x a)
  obtain k v where x: "x = (k, v)" by (cases x)
  have "map_of (fold (\<lambda>(k, v). AList.update k v) a (AList.update k v d))
        = map_of (AList.update k v d) ++ map_of (rev a)" by (rule Cons.IH)
  also have "\<dots> = map_of d ++ ([k \<mapsto> v] ++ map_of (rev a))"
    by (simp add: update_conv' map_add_upd_left fun_eq_iff map_add_def split: option.splits)
  finally show ?case by (simp add: x)
qed

lemma keys_dict_update: "fst ` set (dict_update d a) = fst ` set d \<union> fst ` set a"
  unfolding dict_update_def
proof (induction a arbitrary: d)
  case Nil
  then show ?case by simp
next
  case (Cons x a)
  obtain k v where x: "x = (k, v)" by (cases x)
  show ?case using Cons.IH[of "AList.update k v d"] by (simp add: x keys_update)
qed

lemma created_at_default:
  "''created_at'' \<in> fst ` set (make_attrs e None library)"
  by (simp add: make_attrs_def Let_def keys_update split: option.splits)

lemma make_attrs_Some:
  "make_attrs e (Some a) library = dict_update (make_attrs e None library) a"
  by (simp add: make_attrs_def Let_def)



section \<open>The store model: what is kept and what is computed\<close>

lemma keeps_refl: "keeps s s"
  by (simp add: keeps_def)

lemma keeps_length: "keeps s0 s \<Longrightarrow> length s0 \<le> length s"
proof -
  assume "keeps s0 s"
  then have "length (take (length s0) s) = length s0" by (simp add: keeps_def)
  then show ?thesis by simp
qed

lemma keeps_alloc:
  assumes "keeps s0 s" "alloc s ob = (s', r)"
  shows "keeps s0 s' \<and> length s0 \<le> r"
proof -
  from assms(2) have e: "s' = s @ [ob]" "r = length s" by (simp_all add: alloc_def)
  have l: "length s0 \<le> length s" using assms(1) by (rule keeps_length)
  then have "take (length s0) (s @ [ob]) = take (length s0) s" by simp
  with assms(1) l e show ?thesis by (simp add: keeps_def)
qed

lemma keeps_update: "keeps s0 s \<Longrightarrow> length s0 \<le> r \<Longrightarrow> keeps s0 (s[r := ob])"
  by (simp add: keeps_def)

lemma keeps_deepcopy_items:
  "keeps s0 s \<Longrightarrow> deepcopy_items s memo items = Some (s', items') \<Longrightarrow> keeps s0 s'"
proof (induction items arbitrary: s memo items')
  case Nil
  then show ?case by simp
next
  case (Cons ka items)
  obtain k a where ka: "ka = (k, a)" by (cases ka)
  show ?case
  proof (cases "map_of memo a")
    case (Some b)
    with Cons.prems(2) ka obtain its where "deepcopy_items s memo items = Some (s', its)"
      by (auto split: option.splits prod.splits)
    from Cons.IH[OF Cons.prems(1) this] show ?thesis .
  next
    case None
    with Cons.prems(2) ka obtain xs s1 b its where
      a: "alloc s (SeqObj xs) = (s1, b)"
      and r: "deepcopy_items s1 ((a, b) # memo) items = Some (s', its)"
      by (auto split: option.splits prod.splits)
    from keeps_alloc[OF Cons.prems(1) a] have "keeps s0 s1" by simp
    from Cons.IH[OF this r] show ?thesis .
  qed
qed

lemma keeps_deepcopy_dict:
  assumes "keeps s0 s" "deepcopy_dict s r = Some (s', r')"
  shows "keeps s0 s' \<and> length s0 \<le> r'"
proof -
  from assms(2) obtain items s1 items' where
    c: "deepcopy_items s [] items = Some (s1, items')" and a: "alloc s1 (DictObj items') = (s', r')"
    by (auto simp: deepcopy_dict_def split: option.splits prod.splits)
  from keeps_deepcopy_items[OF assms(1) c] have "keeps s0 s1" .
  from keeps_alloc[OF this a] show ?thesis .
qed

lemma keeps_deepcopy_list:
  assumes "keeps s0 s" "deepcopy_list s r = Some (s', r')"
  shows "keeps s0 s' \<and> length s0 \<le> r'"
proof -
  from assms(2) obtain xs where a: "alloc s (ListObj xs) = (s', r')"
    by (auto simp: deepcopy_list_def split: option.splits)
  from keeps_alloc[OF assms(1) a] show ?thesis .
qed

lemma keeps_gdc_loop_store:
  "keeps s0 s \<Longrightarrow> length s0 \<le> d \<Longrightarrow> length s0 \<le> c \<Longrightarrow>
   gdc_loop_store v idx shape d c s = Some s' \<Longrightarrow> keeps s0 s'"
proof (induction shape arbitrary: idx s)
  case Nil
  then show ?case by simp
next
  case (Cons dim_len shape)
  from Cons.prems(4) obtain ds where ds: "get_list s d = Some ds"
    by (auto split: option.splits)
  obtain ds' n where sd: "set_dim v idx ds = (ds', n)" by (cases "set_dim v idx ds")
  let ?s1 = "s[d := ListObj ds']"
  from Cons.prems(4) ds sd obtain items where it: "get_dict ?s1 c = Some items"
    by (auto simp: Let_def split: option.splits)
  let ?s2 = "if n \<notin> fst ` set items
             then (let (s, a) = alloc ?s1 (SeqObj (arange dim_len))
                   in s[c := DictObj (AList.update n a items)])
             else ?s1"
  have r: "gdc_loop_store v (idx + 1) shape d c ?s2 = Some s'"
    using Cons.prems(4) ds sd it by (simp add: Let_def)
  have k1: "keeps s0 ?s1" using Cons.prems(1,2) by (rule keeps_update)
  have k2: "keeps s0 ?s2"
  proof (cases "n \<notin> fst ` set items")
    case True
    obtain sa a where al: "alloc ?s1 (SeqObj (arange dim_len)) = (sa, a)"
      by (cases "alloc ?s1 (SeqObj (arange dim_len))")
    from keeps_alloc[OF k1 al] have "keeps s0 sa" by simp
    then have "keeps s0 (sa[c := DictObj (AList.update n a items)])"
      using Cons.prems(3) by (rule keeps_update)
    then show ?thesis using True al by simp
  next
    case False
    then show ?thesis using k1 by simp
  qed
  from Cons.IH[OF k2 Cons.prems(2,3) r] show ?case .
qed

lemma keeps_nth: "keeps s0 s \<Longrightarrow> r < length s0 \<Longrightarrow> s ! r = s0 ! r"
  unfolding keeps_def by (metis nth_take)

lemma keeps_trans: "keeps s0 s1 \<Longrightarrow> keeps s1 s2 \<Longrightarrow> keeps s0 s2"
proof -
  assume a: "keeps s0 s1" "keeps s1 s2"
  have l: "length s0 \<le> length s1" using a(1) by (rule keeps_length)
  have "take (length s0) s2 = take (length s0) (take (length s1) s2)" using l by (simp add: min_def)
  also have "\<dots> = take (length s0) s1" using a(2) by (simp add: keeps_def)
  also have "\<dots> = s0" using a(1) by (simp add: keeps_def)
  finally show ?thesis by (simp add: keeps_def)
qed

lemma get_list_Some: "get_list s r = Some xs \<longleftrightarrow> r < length s \<and> s ! r = ListObj xs"
  by (auto simp: get_list_def split: obj.splits)

lemma get_dict_Some: "get_dict s r = Some xs \<longleftrightarrow> r < length s \<and> s ! r = DictObj xs"
  by (auto simp: get_dict_def split: obj.splits)

lemma get_seq_Some: "get_seq s r = Some xs \<longleftrightarrow> r < length s \<and> s ! r = SeqObj xs"
  by (auto simp: get_seq_def split: obj.splits)

lemma keeps_get_list: "keeps s0 s \<Longrightarrow> get_list s0 r = Some xs \<Longrightarrow> get_list s r = Some xs"
  using keeps_nth[of s0 s r] keeps_length[of s0 s] by (auto simp: get_list_Some)

lemma keeps_get_dict: "keeps s0 s \<Longrightarrow> get_dict s0 r = Some xs \<Longrightarrow> get_dict s r = Some xs"
  using keeps_nth[of s0 s r] keeps_length[of s0 s] by (auto simp: get_dict_Some)

lemma keeps_get_seq: "keeps s0 s \<Longrightarrow> get_seq s0 r = Some xs \<Longrightarrow> get_seq s r = Some xs"
  using keeps_nth[of s0 s r] keeps_length[of s0 s] by (auto simp: get_seq_Some)

lemma those_map_Some_iff:
  "those (map (\<lambda>(k, a). map_option (Pair k) (f a)) items) = Some C
     \<longleftrightarrow> list_all2 (\<lambda>(k, a) (k', c). k' = k \<and> f a = Some c) items C"
proof (induction items arbitrary: C)
  case Nil
  then show ?case by auto
next
  case (Cons ka items)
  obtain k a where ka: "ka = (k, a)" by (cases ka)
  show ?case
  proof (cases C)
    case Nil
    then show ?thesis by (simp add: ka split: option.splits)
  next
    case c: (Cons kc C')
    obtain k' x where kc: "kc = (k', x)" by (cases kc)
    show ?thesis
    proof (cases "f a")
      case None
      then show ?thesis by (simp add: ka c kc)
    next
      case (Some y)
      show ?thesis
      proof (cases "those (map (\<lambda>(k, a). map_option (Pair k) (f a)) items)")
        case None
        with Cons.IH[of C'] have "\<not> list_all2 (\<lambda>(k, a) (k', c). k' = k \<and> f a = Some c) items C'"
          by simp
        with None Some show ?thesis by (simp add: ka c kc)
      next
        case s: (Some D)
        with Cons.IH[of C'] have "D = C' \<longleftrightarrow> list_all2 (\<lambda>(k, a) (k', c). k' = k \<and> f a = Some c) items C'"
          by simp
        with s Some show ?thesis by (auto simp: ka c kc)
      qed
    qed
  qed
qed

lemma read_dict_Some:
  "read_dict s r = Some C \<longleftrightarrow> (\<exists>items. get_dict s r = Some items \<and> reads s items C)"
  by (auto simp: read_dict_def reads_def those_map_Some_iff split: option.splits)

lemma keeps_reads: "keeps s0 s \<Longrightarrow> reads s0 items C \<Longrightarrow> reads s items C"
  unfolding reads_def
  by (erule list_all2_mono) (auto dest: keeps_get_seq)

lemma keeps_read_dict: "keeps s0 s \<Longrightarrow> read_dict s0 r = Some C \<Longrightarrow> read_dict s r = Some C"
  unfolding read_dict_Some by (blast dest: keeps_get_dict keeps_reads)

lemma generate_dims_coords_store_keeps:
  assumes "generate_dims_coords_store s shape var_name dims coords default_dims =
             Some (s', ws, dims', coords')"
  shows "keeps s s' \<and> length s \<le> dims' \<and> length s \<le> coords'"
proof -
  obtain s1 d1 where a1: "(case dims of None \<Rightarrow> alloc s (ListObj []) | Some r \<Rightarrow> (s, r)) = (s1, d1)"
    by (cases "case dims of None \<Rightarrow> alloc s (ListObj []) | Some r \<Rightarrow> (s, r)")
  obtain s2 c2 where a2: "(case coords of None \<Rightarrow> alloc s1 (DictObj []) | Some r \<Rightarrow> (s1, r)) = (s2, c2)"
    by (cases "case coords of None \<Rightarrow> alloc s1 (DictObj []) | Some r \<Rightarrow> (s1, r)")
  from assms a1 a2 obtain ds s3 c3 s4 d4 s5 ds' items where
    dc: "deepcopy_dict s2 c2 = Some (s3, c3)"
    and dl: "deepcopy_list s3 d1 = Some (s4, d4)"
    and lp: "gdc_loop_store var_name 0 shape d4 c3 s4 = Some s5"
    and fin: "alloc s5 (DictObj (filter (\<lambda>(key, coord). \<exists>dim \<in> set ds'. Some key = dim) items))
                = (s', coords')"
    and d: "dims' = d4"
    by (auto simp: generate_dims_coords_store_def Let_def split: option.splits prod.splits)
  have k1: "keeps s s1"
    using a1 keeps_alloc[OF keeps_refl, of s] by (cases dims) (auto simp: keeps_refl)
  have "keeps s1 s2"
    using a2 keeps_alloc[OF keeps_refl, of s1] by (cases coords) (auto simp: keeps_refl)
  with k1 have k2: "keeps s s2" by (rule keeps_trans)
  from keeps_deepcopy_dict[OF k2 dc] have k3: "keeps s s3" and c3: "length s \<le> c3" by simp_all
  from keeps_deepcopy_list[OF k3 dl] have k4: "keeps s s4" and d4: "length s \<le> d4" by simp_all
  from keeps_gdc_loop_store[OF k4 d4 c3 lp] have k5: "keeps s s5" .
  from keeps_alloc[OF k5 fin] d d4 show ?thesis by simp
qed

lemma reads_keys: "reads s items C \<Longrightarrow> map fst items = map fst C"
  unfolding reads_def by (induction items C rule: list_all2_induct) auto

lemma reads_snoc:
  "reads s items C \<Longrightarrow> get_seq s a = Some c \<Longrightarrow> reads s (items @ [(k, a)]) (C @ [(k, c)])"
  unfolding reads_def by (rule list_all2_appendI) simp_all

lemma reads_filter:
  "reads s items C \<Longrightarrow>
   reads s (filter (\<lambda>(k, a). Q k) items) (filter (\<lambda>(k, c). Q k) C)"
  unfolding reads_def by (induction items C rule: list_all2_induct) auto

lemma get_seq_update:
  assumes "get_seq s a = Some c" "get_seq s r = None"
  shows "get_seq (s[r := ob]) a = Some c"
proof -
  have "a \<noteq> r" using assms by auto
  with assms(1) show ?thesis by (simp add: get_seq_Some)
qed

lemma reads_update:
  "reads s items C \<Longrightarrow> get_seq s r = None \<Longrightarrow> reads (s[r := ob]) items C"
  unfolding reads_def
  by (erule list_all2_mono) (auto dest: get_seq_update)

lemma memo_ok_keeps:
  assumes "memo_ok s memo" "keeps s s1"
  shows "memo_ok s1 memo"
  unfolding memo_ok_def
proof (intro allI impI)
  fix a b assume "map_of memo a = Some b"
  with assms(1) obtain c where c: "get_seq s a = Some c" "get_seq s b = Some c"
    unfolding memo_ok_def by fastforce
  from keeps_get_seq[OF assms(2) c(1)] keeps_get_seq[OF assms(2) c(2)]
  show "get_seq s1 a \<noteq> None \<and> get_seq s1 b = get_seq s1 a" by simp
qed

lemma deepcopy_items_reads:
  "memo_ok s memo \<Longrightarrow> reads s items C \<Longrightarrow>
   \<exists>s' items'. deepcopy_items s memo items = Some (s', items') \<and> keeps s s' \<and> reads s' items' C"
proof (induction items arbitrary: s memo C)
  case Nil
  then show ?case by (simp add: reads_def keeps_refl)
next
  case (Cons ka items)
  obtain k a where ka: "ka = (k, a)" by (cases ka)
  from Cons.prems(2) ka obtain c C' where C: "C = (k, c) # C'" and ga: "get_seq s a = Some c"
    and r: "reads s items C'"
    by (auto simp: reads_def list_all2_Cons1)
  show ?case
  proof (cases "map_of memo a")
    case (Some b)
    with Cons.prems(1) ga have gb: "get_seq s b = Some c" by (simp add: memo_ok_def)
    from Cons.IH[OF Cons.prems(1) r] obtain s' items' where
      d: "deepcopy_items s memo items = Some (s', items')" and k': "keeps s s'"
      and r': "reads s' items' C'" by blast
    have "get_seq s' b = Some c" using keeps_get_seq[OF k' gb] .
    then have "reads s' ((k, b) # items') C" using r' by (simp add: reads_def C)
    moreover have "deepcopy_items s memo (ka # items) = Some (s', (k, b) # items')"
      using Some d by (simp add: ka)
    ultimately show ?thesis using k' by blast
  next
    case None
    let ?s1 = "s @ [SeqObj c]"
    let ?b = "length s"
    have al: "alloc s (SeqObj c) = (?s1, ?b)" by (simp add: alloc_def)
    have k1: "keeps s ?s1" by (simp add: keeps_def)
    have gb1: "get_seq ?s1 ?b = Some c" by (simp add: get_seq_def)
    have ga1: "get_seq ?s1 a = Some c" using keeps_get_seq[OF k1 ga] .
    have m1: "memo_ok ?s1 ((a, ?b) # memo)"
      using memo_ok_keeps[OF Cons.prems(1) k1] ga1 gb1 by (simp add: memo_ok_def)
    have r1: "reads ?s1 items C'" using keeps_reads[OF k1 r] .
    from Cons.IH[OF m1 r1] obtain s' items' where
      d: "deepcopy_items ?s1 ((a, ?b) # memo) items = Some (s', items')" and k': "keeps ?s1 s'"
      and r': "reads s' items' C'" by blast
    have "get_seq s' ?b = Some c" using keeps_get_seq[OF k' gb1] .
    then have "reads s' ((k, ?b) # items') C" using r' by (simp add: reads_def C)
    moreover have "deepcopy_items s memo (ka # items) = Some (s', (k, ?b) # items')"
      using None ga al d by (simp add: ka)
    moreover have "keeps s s'" using k1 k' by (rule keeps_trans)
    ultimately show ?thesis by blast
  qed
qed

lemma deepcopy_dict_reads:
  assumes "read_dict s r = Some C"
  shows "\<exists>s' items'. deepcopy_dict s r = Some (s' @ [DictObj items'], length s')
           \<and> keeps s s' \<and> reads s' items' C"
proof -
  from assms obtain items where g: "get_dict s r = Some items" and rd: "reads s items C"
    unfolding read_dict_Some by blast
  have "memo_ok s []" by (simp add: memo_ok_def)
  from deepcopy_items_reads[OF this rd] obtain s' items' where
    d: "deepcopy_items s [] items = Some (s', items')" and k: "keeps s s'" and r: "reads s' items' C"
    by blast
  have "deepcopy_dict s r = Some (s' @ [DictObj items'], length s')"
    using g d by (simp add: deepcopy_dict_def alloc_def)
  with k r show ?thesis by blast
qed

lemma get_list_update_same: "d < length s \<Longrightarrow> get_list (s[d := ListObj xs]) d = Some xs"
  by (simp add: get_list_Some)

lemma get_list_update_other:
  "get_list s d = Some xs \<Longrightarrow> d \<noteq> r \<Longrightarrow> get_list (s[r := ob]) d = Some xs"
  by (simp add: get_list_Some)

lemma get_dict_update_same: "c < length s \<Longrightarrow> get_dict (s[c := DictObj xs]) c = Some xs"
  by (simp add: get_dict_Some)

lemma get_dict_update_other:
  "get_dict s c = Some xs \<Longrightarrow> c \<noteq> r \<Longrightarrow> get_dict (s[r := ob]) c = Some xs"
  by (simp add: get_dict_Some)

lemma get_seq_None_list: "get_list s d = Some xs \<Longrightarrow> get_seq s d = None"
  by (simp add: get_list_Some get_seq_def)

lemma get_seq_None_dict: "get_dict s c = Some xs \<Longrightarrow> get_seq s c = None"
  by (simp add: get_dict_Some get_seq_def)

lemma gdc_loop_store_refines:
  "d \<noteq> c \<Longrightarrow> get_list s d = Some dims \<Longrightarrow> get_dict s c = Some items \<Longrightarrow>
   reads s items coords \<Longrightarrow>
   \<exists>s' items'. gdc_loop_store v idx shape d c s = Some s'
      \<and> get_list s' d = Some (fst (gdc_loop v idx shape dims coords))
      \<and> get_dict s' c = Some items'
      \<and> reads s' items' (snd (gdc_loop v idx shape dims coords))"
proof (induction shape arbitrary: idx s dims items coords)
  case Nil
  then show ?case by simp
next
  case (Cons dim_len shape)
  obtain ds' n where sd: "set_dim v idx dims = (ds', n)" by (cases "set_dim v idx dims")
  let ?s1 = "s[d := ListObj ds']"
  have dl: "d < length s" using Cons.prems(2) by (simp add: get_list_Some)
  have cl: "c < length s" using Cons.prems(3) by (simp add: get_dict_Some)
  have g1: "get_list ?s1 d = Some ds'" using dl by (rule get_list_update_same)
  have c1: "get_dict ?s1 c = Some items"
    using Cons.prems(3) Cons.prems(1)[symmetric] by (rule get_dict_update_other)
  have r1: "reads ?s1 items coords"
    using Cons.prems(4) get_seq_None_list[OF Cons.prems(2)] by (rule reads_update)
  have keys: "fst ` set items = fst ` set coords"
    using reads_keys[OF Cons.prems(4)] by (metis set_map)
  show ?case
  proof (cases "n \<in> fst ` set coords")
    case True
    have pure: "gdc_loop v idx (dim_len # shape) dims coords = gdc_loop v (idx + 1) shape ds' coords"
      using True by (simp add: sd)
    have st: "gdc_loop_store v idx (dim_len # shape) d c s = gdc_loop_store v (idx + 1) shape d c ?s1"
      using True keys Cons.prems(2) c1 by (simp add: sd Let_def)
    from Cons.IH[OF Cons.prems(1) g1 c1 r1, of "idx + 1"] show ?thesis
      unfolding pure st .
  next
    case False
    let ?sa = "?s1 @ [SeqObj (arange dim_len)]"
    let ?a = "length ?s1"
    let ?items = "items @ [(n, ?a)]"
    let ?coords = "coords @ [(n, arange dim_len)]"
    let ?s2 = "?sa[c := DictObj ?items]"
    have ui: "AList.update n ?a items = ?items" using False keys by (simp add: update_fresh)
    have uc: "AList.update n (arange dim_len) coords = ?coords" using False by (simp add: update_fresh)
    have pure: "gdc_loop v idx (dim_len # shape) dims coords = gdc_loop v (idx + 1) shape ds' ?coords"
      using False uc by (simp add: sd)
    have st: "gdc_loop_store v idx (dim_len # shape) d c s = gdc_loop_store v (idx + 1) shape d c ?s2"
      using False keys Cons.prems(2) c1 ui by (simp add: sd Let_def alloc_def)
    have ka: "keeps ?s1 ?sa" by (simp add: keeps_def)
    have g2: "get_list ?s2 d = Some ds'"
      using keeps_get_list[OF ka g1] Cons.prems(1) by (rule get_list_update_other)
    have c2: "get_dict ?s2 c = Some ?items"
      using cl by (intro get_dict_update_same) simp
    have rsa: "reads ?sa items coords" using keeps_reads[OF ka r1] .
    have cn: "get_seq ?sa c = None" using keeps_get_dict[OF ka c1] by (rule get_seq_None_dict)
    have r2a: "reads ?s2 items coords" using rsa cn by (rule reads_update)
    have "get_seq ?sa ?a = Some (arange dim_len)" by (simp add: get_seq_Some nth_append)
    then have "get_seq ?s2 ?a = Some (arange dim_len)" using cn by (rule get_seq_update)
    with r2a have r2: "reads ?s2 ?items ?coords" by (rule reads_snoc)
    from Cons.IH[OF Cons.prems(1) g2 c2 r2, of "idx + 1"] show ?thesis
      unfolding pure st .
  qed
qed

lemma generate_dims_coords_store_steps:
  assumes "(case dims of None \<Rightarrow> alloc s (ListObj []) | Some r \<Rightarrow> (s, r)) = (s1, d1)"
    and "get_list s1 d1 = Some ds"
    and "(case coords of None \<Rightarrow> alloc s1 (DictObj []) | Some r \<Rightarrow> (s1, r)) = (s2, c2)"
    and "deepcopy_dict s2 c2 = Some (s3, c3)"
    and "deepcopy_list s3 d1 = Some (s4, d4)"
    and "gdc_loop_store var_name 0 shape d4 c3 s4 = Some s5"
    and "get_list s5 d4 = Some ds'"
    and "get_dict s5 c3 = Some items"
  shows "generate_dims_coords_store s shape var_name dims coords default_dims =
     Some (s5 @ [DictObj (filter (\<lambda>(key, coord). \<exists>dim \<in> set ds'. Some key = dim) items)],
           (if length (filter (\<lambda>dim. dim \<notin> Some ` set (case default_dims of None \<Rightarrow> [] | Some d \<Rightarrow> d)) ds)
                 > length shape
            then [MoreDimsThanShape var_name (length ds) (length shape)
                    (case default_dims of None \<Rightarrow> [] | Some d \<Rightarrow> d)]
            else []),
           d4, length s5)"
  using assms by (simp add: generate_dims_coords_store_def Let_def alloc_def)

lemma generate_dims_coords_store_refines:
  assumes D: "rel_option (\<lambda>r D. get_list s r = Some D) dims dv"
    and C: "rel_option (\<lambda>r C. read_dict s r = Some C) coords cv"
  shows "\<exists>s' d' c'.
      generate_dims_coords_store s shape var_name dims coords default_dims =
        Some (s', fst (generate_dims_coords shape var_name dv cv default_dims), d', c')
    \<and> get_list s' d' = Some (fst (snd (generate_dims_coords shape var_name dv cv default_dims)))
    \<and> read_dict s' c' = Some (snd (snd (generate_dims_coords shape var_name dv cv default_dims)))"
proof -
  let ?D = "case dv of None \<Rightarrow> [] | Some d \<Rightarrow> d"
  let ?C = "case cv of None \<Rightarrow> [] | Some c \<Rightarrow> c"
  obtain s1 d1 where a1: "(case dims of None \<Rightarrow> alloc s (ListObj []) | Some r \<Rightarrow> (s, r)) = (s1, d1)"
    by (cases "case dims of None \<Rightarrow> alloc s (ListObj []) | Some r \<Rightarrow> (s, r)")
  have k1: "keeps s s1" and g1: "get_list s1 d1 = Some ?D"
  proof -
    show "keeps s s1" using a1 by (cases dims) (auto simp: alloc_def keeps_def)
    show "get_list s1 d1 = Some ?D"
      using a1 D by (cases dims; cases dv) (auto simp: alloc_def get_list_def)
  qed
  obtain s2 c2 where a2: "(case coords of None \<Rightarrow> alloc s1 (DictObj []) | Some r \<Rightarrow> (s1, r)) = (s2, c2)"
    by (cases "case coords of None \<Rightarrow> alloc s1 (DictObj []) | Some r \<Rightarrow> (s1, r)")
  have k2: "keeps s1 s2" using a2 by (cases coords) (auto simp: alloc_def keeps_def)
  have rd2: "read_dict s2 c2 = Some ?C"
  proof (cases coords)
    case None
    with C have "cv = None" by (cases cv) simp_all
    with None a2 show ?thesis by (auto simp: alloc_def read_dict_def get_dict_def)
  next
    case (Some r)
    with C obtain Cv where cv: "cv = Some Cv" "read_dict s r = Some Cv" by (cases cv) simp_all
    from keeps_read_dict[OF k1 cv(2)] Some a2 cv(1) show ?thesis by simp
  qed
  from deepcopy_dict_reads[OF rd2] obtain s3' items3 where
    dc: "deepcopy_dict s2 c2 = Some (s3' @ [DictObj items3], length s3')"
    and k3: "keeps s2 s3'" and r3: "reads s3' items3 ?C" by blast
  let ?s3 = "s3' @ [DictObj items3]"
  let ?c3 = "length s3'"
  have k3': "keeps s3' ?s3" by (simp add: keeps_def)
  have g3: "get_list ?s3 d1 = Some ?D"
    using keeps_get_list[OF k3' keeps_get_list[OF k3 keeps_get_list[OF k2 g1]]] .
  let ?s4 = "?s3 @ [ListObj ?D]"
  let ?d4 = "length ?s3"
  have dl: "deepcopy_list ?s3 d1 = Some (?s4, ?d4)" using g3 by (simp add: deepcopy_list_def alloc_def)
  have k4: "keeps ?s3 ?s4" by (simp add: keeps_def)
  have ne: "?d4 \<noteq> ?c3" by simp
  have g4: "get_list ?s4 ?d4 = Some ?D" by (simp add: get_list_Some nth_append)
  have c3: "get_dict ?s3 ?c3 = Some items3" by (simp add: get_dict_Some nth_append)
  have c4: "get_dict ?s4 ?c3 = Some items3" using keeps_get_dict[OF k4 c3] .
  have r4: "reads ?s4 items3 ?C" using keeps_reads[OF k4 keeps_reads[OF k3' r3]] .
  from gdc_loop_store_refines[OF ne g4 c4 r4, of var_name 0 shape] obtain s5 items5 where
    lp: "gdc_loop_store var_name 0 shape ?d4 ?c3 ?s4 = Some s5"
    and g5: "get_list s5 ?d4 = Some (fst (gdc_loop var_name 0 shape ?D ?C))"
    and c5: "get_dict s5 ?c3 = Some items5"
    and r5: "reads s5 items5 (snd (gdc_loop var_name 0 shape ?D ?C))" by blast
  let ?out = "fst (gdc_loop var_name 0 shape ?D ?C)"
  let ?Q = "\<lambda>key. \<exists>dim \<in> set ?out. Some key = dim"
  let ?s' = "s5 @ [DictObj (filter (\<lambda>(key, coord). ?Q key) items5)]"
  note st = generate_dims_coords_store_steps[OF a1 g1 a2 dc dl lp g5 c5, of default_dims]
  have k6: "keeps s5 ?s'" by (simp add: keeps_def)
  have gl: "get_list ?s' ?d4 = Some ?out" using keeps_get_list[OF k6 g5] .
  have "reads s5 (filter (\<lambda>(key, coord). ?Q key) items5)
          (filter (\<lambda>(key, coord). ?Q key) (snd (gdc_loop var_name 0 shape ?D ?C)))"
    using r5 by (rule reads_filter)
  then have rf: "reads ?s' (filter (\<lambda>(key, coord). ?Q key) items5)
          (filter (\<lambda>(key, coord). ?Q key) (snd (gdc_loop var_name 0 shape ?D ?C)))"
    using keeps_reads[OF k6] by blast
  have gd: "get_dict ?s' (length s5) = Some (filter (\<lambda>(key, coord). ?Q key) items5)"
    by (simp add: get_dict_Some nth_append)
  have rd: "read_dict ?s' (length s5) =
      Some (filter (\<lambda>(key, coord). ?Q key) (snd (gdc_loop var_name 0 shape ?D ?C)))"
    unfolding read_dict_Some using gd rf by blast
  have pure: "generate_dims_coords shape var_name dv cv default_dims =
      ((if length (filter (\<lambda>dim. dim \<notin> Some ` set (case default_dims of None \<Rightarrow> [] | Some d \<Rightarrow> d)) ?D)
                 > length shape
            then [MoreDimsThanShape var_name (length ?D) (length shape)
                    (case default_dims of None \<Rightarrow> [] | Some d \<Rightarrow> d)]
            else []),
       ?out, filter (\<lambda>(key, coord). ?Q key) (snd (gdc_loop var_name 0 shape ?D ?C)))"
    by (simp add: generate_dims_coords_def Let_def split: prod.splits)
  show ?thesis
    unfolding pure using st gl rd by (intro exI[of _ ?s'] exI[of _ ?d4] exI[of _ "length s5"]) simp
qed

section \<open>Claims\<close>

text \<open>
  C1. With \<open>dims = None\<close> and \<open>coords = None\<close>, for every shape \<open>S\<close> and every variable
  name, \<open>generate_dims_coords\<close> emits no warning and returns the dims
  \<open>var_name_dim_0, ..., var_name_dim_(k-1)\<close> for \<open>k = length S\<close>, and the coords that
  send the name of axis \<open>i\<close> to the integers \<open>0, ..., S ! i - 1\<close>, one entry per axis in
  the order of the axes.
\<close>

theorem generate_dims_coords_defaults:
  "generate_dims_coords S var_name None None default_dims =
     ([], map (\<lambda>i. Some (format_dim_name var_name i)) [0..<length S],
          map (\<lambda>i. (format_dim_name var_name i, map (\<lambda>j. PyInt (int j)) [0..<S ! i]))
              [0..<length S])"
proof -
  have l: "gdc_loop var_name 0 S [] [] =
     (map (\<lambda>i. Some (format_dim_name var_name i)) [0..<length S],
      map (\<lambda>i. (format_dim_name var_name i, arange (S ! i))) [0..<length S])"
    using gdc_loop_fresh[where dims="[]" and idx=0 and coords="[]" and v=var_name and shape=S]
    by simp
  show ?thesis
    by (simp add: generate_dims_coords_def l filter_map comp_def arange_def)
qed

theorem generate_dims_coords_defaults_witness:
  "generate_dims_coords [2, 3] ''x'' None None None =
     ([], [Some ''x_dim_0'', Some ''x_dim_1''],
          [(''x_dim_0'', [PyInt 0, PyInt 1]), (''x_dim_1'', [PyInt 0, PyInt 1, PyInt 2])])"
  using generate_dims_coords_defaults[of "[2, 3]" "''x''" None]
  by (simp add: format_dim_name_def str_nat.simps upt_rec digit_char_def)



text \<open>
  C3. An array of rank at least 2 that is labeled with no dims and no coords gets the
  dims \<open>chain\<close>, \<open>draw\<close> and then the generated names of its free axes, and every
  axis gets the integers from 0 below its length as coordinate; no error is possible,
  and the only warning is the one for more chains than draws. The witness has the two
  arrays of the spec: shape \<open>(4, 100)\<close>, and shape \<open>(4, 100, 8)\<close> under the name
  \<open>theta\<close>.
\<close>

theorem numpy_to_data_array_defaults:
  "numpy_to_data_array \<lparr>nd_shape = n_chains # n_samples # shape, nd_data = xs\<rparr> var_name None None =
     ((if n_chains > n_samples then [MoreChainsThanDraws n_chains n_samples] else []),
      Inr \<lparr>da_values = \<lparr>nd_shape = n_chains # n_samples # shape, nd_data = xs\<rparr>,
           da_coords =
             (''chain'', map (\<lambda>j. PyInt (int j)) [0..<n_chains]) #
             (''draw'', map (\<lambda>j. PyInt (int j)) [0..<n_samples]) #
             map (\<lambda>i. (format_dim_name var_name i, map (\<lambda>j. PyInt (int j)) [0..<shape ! i]))
                 [0..<length shape],
           da_dims = ''chain'' # ''draw'' # map (format_dim_name var_name) [0..<length shape]\<rparr>)"
  using numpy_to_data_array_None[of "\<lparr>nd_shape = n_chains # n_samples # shape, nd_data = xs\<rparr>"
      n_chains n_samples shape var_name]
  by (simp add: arange_def)

theorem numpy_to_data_array_defaults_witness:
  "numpy_to_data_array \<lparr>nd_shape = [4, 100], nd_data = replicate 400 (0 :: int)\<rparr> ''data'' None None =
     ([], Inr \<lparr>da_values = \<lparr>nd_shape = [4, 100], nd_data = replicate 400 0\<rparr>,
               da_coords = [(''chain'', [PyInt 0, PyInt 1, PyInt 2, PyInt 3]),
                            (''draw'', map (\<lambda>j. PyInt (int j)) [0..<100])],
               da_dims = [''chain'', ''draw'']\<rparr>)
   \<and> numpy_to_data_array \<lparr>nd_shape = [4, 100, 8], nd_data = replicate 3200 (0 :: int)\<rparr> ''theta'' None None =
     ([], Inr \<lparr>da_values = \<lparr>nd_shape = [4, 100, 8], nd_data = replicate 3200 0\<rparr>,
               da_coords = [(''chain'', [PyInt 0, PyInt 1, PyInt 2, PyInt 3]),
                            (''draw'', map (\<lambda>j. PyInt (int j)) [0..<100]),
                            (''theta_dim_0'', [PyInt 0, PyInt 1, PyInt 2, PyInt 3, PyInt 4,
                                               PyInt 5, PyInt 6, PyInt 7])],
               da_dims = [''chain'', ''draw'', ''theta_dim_0'']\<rparr>)"
proof -
  have u4: "[0..<4] = [0, 1, 2, 3 :: nat]" by code_simp
  have u8: "[0..<8] = [0, 1, 2, 3, 4, 5, 6, 7 :: nat]" by code_simp
  have n0: "format_dim_name ''theta'' 0 = ''theta_dim_0''" by code_simp
  show ?thesis
    using numpy_to_data_array_defaults[of 4 100 "[]" "replicate 400 (0 :: int)" "''data''"]
      numpy_to_data_array_defaults[of 4 100 "[8]" "replicate 3200 (0 :: int)" "''theta''"]
    by (simp add: u4 u8 n0)
qed

text \<open>
  C4 (as stated). The claim has \<open>draw\<close>, when absent, inserted immediately after
  \<open>chain\<close>. For an array of shape \<open>(2, 2, 2)\<close> and the dims \<open>x, chain\<close> the inferred dims
  are \<open>x, chain\<close>, without \<open>draw\<close>, and the returned array has the dims
  \<open>draw, x, chain\<close>: \<open>draw\<close> comes first, not after \<open>chain\<close>.
\<close>

theorem numpy_to_data_array_default_dims_counterexample:
  "fst (snd (generate_dims_coords [2] ''data'' (Some [Some ''x'', Some ''chain'']) None
                (Some [''chain'', ''draw'']))) = [Some ''x'', Some ''chain'']
   \<and> snd (numpy_to_data_array \<lparr>nd_shape = [2, 2, 2], nd_data = [] :: int list\<rparr> ''data'' None
            (Some [Some ''x'', Some ''chain''])) =
       Inr \<lparr>da_values = \<lparr>nd_shape = [2, 2, 2], nd_data = []\<rparr>,
            da_coords = [(''draw'', [PyInt 0, PyInt 1]), (''x'', [PyInt 0, PyInt 1]),
                         (''chain'', [PyInt 0, PyInt 1])],
            da_dims = [''draw'', ''x'', ''chain'']\<rparr>"
  by code_simp

text \<open>
  C4 (amended). The final dims of every returned array are the inferred dims with
  \<open>draw\<close> put in front if the inferred dims lack it, and then \<open>chain\<close> put in front of
  that if they lack it. So both names are in the final dims, and when the inferred dims
  have neither, the final dims are \<open>chain\<close>, \<open>draw\<close> and then the inferred dims.
\<close>

theorem numpy_to_data_array_default_dims:
  assumes "numpy_to_data_array ary var_name coords dims = (ws, Inr da)"
    and "inferred = fst (snd (generate_dims_coords (drop 2 (nd_shape (two_de ary))) var_name
                                dims coords (Some [''chain'', ''draw''])))"
  shows "map Some (da_dims da) =
           (if Some ''chain'' \<in> set inferred then [] else [Some ''chain'']) @
           (if Some ''draw'' \<in> set inferred then [] else [Some ''draw'']) @ inferred
       \<and> ''chain'' \<in> set (da_dims da) \<and> ''draw'' \<in> set (da_dims da)
       \<and> (Some ''chain'' \<notin> set inferred \<and> Some ''draw'' \<notin> set inferred \<longrightarrow>
            map Some (da_dims da) = Some ''chain'' # Some ''draw'' # inferred)"
proof -
  from assms(1) obtain n_chains n_samples shape ws2 d c cs ds where
    sh: "nd_shape (two_de ary) = n_chains # n_samples # shape"
    and g: "generate_dims_coords shape var_name dims coords (Some [''chain'', ''draw'']) = (ws2, d, c)"
    and ic: "index_coords (add_default_coords n_chains n_samples c) (add_default_dims d) [] = Inr cs"
    and th: "those (add_default_dims d) = Some ds"
    and xr: "xr_DataArray (two_de ary) cs ds = Inr da"
    by (rule numpy_to_data_array_Inr)
  have inf: "inferred = d" using assms(2) sh g by simp
  from index_coords_Inr[OF ic] th have m: "add_default_dims d = map Some ds" by auto
  have dd: "da_dims da = ds" using xr_DataArray_Inr(1)[OF xr] by simp
  have e: "map Some (da_dims da) =
           (if Some ''chain'' \<in> set inferred then [] else [Some ''chain'']) @
           (if Some ''draw'' \<in> set inferred then [] else [Some ''draw'']) @ inferred"
    unfolding dd inf m[symmetric] by (rule add_default_dims_eq)
  have "Some ''chain'' \<in> set (map Some (da_dims da))" unfolding e by simp
  then have ch: "''chain'' \<in> set (da_dims da)" by auto
  have "Some ''draw'' \<in> set (map Some (da_dims da))" unfolding e by simp
  then have dr: "''draw'' \<in> set (da_dims da)" by auto
  have both: "Some ''chain'' \<notin> set inferred \<and> Some ''draw'' \<notin> set inferred \<longrightarrow>
            map Some (da_dims da) = Some ''chain'' # Some ''draw'' # inferred"
    unfolding e by simp
  from e ch dr both show ?thesis by (intro conjI)
qed

theorem numpy_to_data_array_default_dims_witness:
  "numpy_to_data_array \<lparr>nd_shape = [2, 3, 2], nd_data = [] :: int list\<rparr> ''theta'' None
        (Some [None]) =
      ([], Inr \<lparr>da_values = \<lparr>nd_shape = [2, 3, 2], nd_data = []\<rparr>,
                da_coords = [(''chain'', [PyInt 0, PyInt 1]),
                             (''draw'', [PyInt 0, PyInt 1, PyInt 2]),
                             (''theta_dim_0'', [PyInt 0, PyInt 1])],
                da_dims = [''chain'', ''draw'', ''theta_dim_0'']\<rparr>)
   \<and> fst (snd (generate_dims_coords [2] ''theta'' (Some [None]) None (Some [''chain'', ''draw''])))
       = [Some ''theta_dim_0'']
   \<and> map Some [''chain'', ''draw'', ''theta_dim_0''] =
       Some ''chain'' # Some ''draw'' # [Some ''theta_dim_0'']"
proof -
  have e: "numpy_to_data_array \<lparr>nd_shape = [2, 3, 2], nd_data = [] :: int list\<rparr> ''theta'' None
        (Some [None]) =
      ([], Inr \<lparr>da_values = \<lparr>nd_shape = [2, 3, 2], nd_data = []\<rparr>,
                da_coords = [(''chain'', [PyInt 0, PyInt 1]),
                             (''draw'', [PyInt 0, PyInt 1, PyInt 2]),
                             (''theta_dim_0'', [PyInt 0, PyInt 1])],
                da_dims = [''chain'', ''draw'', ''theta_dim_0'']\<rparr>)"
    by code_simp
  have i: "fst (snd (generate_dims_coords [2] ''theta'' (Some [None]) None (Some [''chain'', ''draw''])))
       = [Some ''theta_dim_0'']"
    by code_simp
  have t: "drop 2 (nd_shape (two_de \<lparr>nd_shape = [2, 3, 2], nd_data = [] :: int list\<rparr>)) = [2]"
    by (simp add: two_de_def)
  from numpy_to_data_array_default_dims[OF e, of "[Some ''theta_dim_0'']"] i t
  show ?thesis using e by simp
qed

text \<open>
  C5 (as stated). The claim is that the returned dims always have length \<open>length shape\<close>
  and that the returned coords have one entry per returned dim. With one dim supplied
  for a shape of rank 0 the surplus dim is kept, and it gets no coordinate.
\<close>

theorem generate_dims_coords_sizes_counterexample:
  "(case generate_dims_coords [] ''x'' (Some [Some ''a'']) None None of
      (ws, dims', coords') \<Rightarrow>
        length dims' \<noteq> length ([] :: nat list) \<and> Some ''a'' \<in> set dims' \<and> ''a'' \<notin> fst ` set coords')"
  by code_simp

text \<open>
  C5 (amended). The returned dims have length \<open>max (length shape) (length dims)\<close>, and
  the entries of the supplied dims beyond \<open>length shape\<close> are returned as they are.
  Each of the first \<open>length shape\<close> returned dims is a name with an entry in the
  returned coords. The keys of the returned coords are exactly the names among the
  returned dims for which the caller supplied a coordinate or which are the name of one
  of the first \<open>length shape\<close> returned dims; so a surplus dim has an entry exactly
  when the caller supplied one for it or an axis of the shape has the same name. When
  the supplied dims are no longer than the shape, the returned dims have length exactly
  \<open>length shape\<close> and the keys of the returned coords are exactly the returned dims.
  No key occurs twice when none does in the caller's coords.
\<close>

theorem generate_dims_coords_sizes:
  assumes "generate_dims_coords shape var_name dims coords default_dims = (ws, dims', coords')"
  shows "length dims' = max (length shape) (length (case dims of None \<Rightarrow> [] | Some d \<Rightarrow> d))
       \<and> (\<forall>i. length shape \<le> i \<and> i < length (case dims of None \<Rightarrow> [] | Some d \<Rightarrow> d) \<longrightarrow>
            dims' ! i = (case dims of None \<Rightarrow> [] | Some d \<Rightarrow> d) ! i)
       \<and> fst ` set coords' \<subseteq> {n. Some n \<in> set dims'}
       \<and> (\<forall>i < length shape. \<exists>n. dims' ! i = Some n \<and> n \<in> fst ` set coords')
       \<and> fst ` set coords' =
            {n. Some n \<in> set dims' \<and>
                (n \<in> fst ` set (case coords of None \<Rightarrow> [] | Some c \<Rightarrow> c)
                 \<or> (\<exists>i < length shape. dims' ! i = Some n))}
       \<and> (length (case dims of None \<Rightarrow> [] | Some d \<Rightarrow> d) \<le> length shape \<longrightarrow>
            length dims' = length shape \<and> set dims' = Some ` fst ` set coords')
       \<and> (distinct (map fst (case coords of None \<Rightarrow> [] | Some c \<Rightarrow> c)) \<longrightarrow>
            distinct (map fst coords'))"
proof -
  define D where "D = (case dims of None \<Rightarrow> [] | Some d \<Rightarrow> d)"
  define C where "C = (case coords of None \<Rightarrow> [] | Some c \<Rightarrow> c)"
  let ?c = "snd (gdc_loop var_name 0 shape D C)"
  have d: "dims' = fst (gdc_loop var_name 0 shape D C)"
    and c: "coords' = filter (\<lambda>(key, coord). Some key \<in> set dims') ?c"
    using generate_dims_coords_unfold[OF assms] by (simp_all add: D_def C_def)
  have len: "length dims' = max (length shape) (length D)"
    unfolding d using gdc_loop_length[of 0 D var_name shape C] by (simp add: max.commute)
  have kept: "\<forall>i. length shape \<le> i \<and> i < length D \<longrightarrow> dims' ! i = D ! i"
    unfolding d using gdc_loop_above[of 0 D shape _ var_name C] by simp
  have keys: "fst ` set coords' = {n \<in> fst ` set ?c. Some n \<in> set dims'}"
    unfolding c by force
  have sub: "fst ` set coords' \<subseteq> {n. Some n \<in> set dims'}"
    using keys by blast
  have named: "\<forall>i < length shape. \<exists>n. dims' ! i = Some n \<and> n \<in> fst ` set coords'"
  proof (intro allI impI)
    fix i assume i: "i < length shape"
    from gdc_loop_named[of 0 D i shape var_name C] i
    obtain n where n: "dims' ! i = Some n" "n \<in> fst ` set ?c" unfolding d by auto
    have "i < length dims'" using len i by simp
    then have "Some n \<in> set dims'" using n(1) by (metis nth_mem)
    with n keys show "\<exists>n. dims' ! i = Some n \<and> n \<in> fst ` set coords'" by blast
  qed
  have exact: "fst ` set coords' =
      {n. Some n \<in> set dims' \<and> (n \<in> fst ` set C \<or> (\<exists>i < length shape. dims' ! i = Some n))}"
  proof (intro set_eqI iffI)
    fix n assume "n \<in> fst ` set coords'"
    with keys have a: "n \<in> fst ` set ?c" "Some n \<in> set dims'" by simp_all
    from gdc_loop_keys_upper[of 0 D n var_name shape C] a(1)
    have "n \<in> fst ` set C \<or> (\<exists>i < length shape. dims' ! i = Some n)"
      unfolding d by simp
    with a(2) show "n \<in> {n. Some n \<in> set dims' \<and>
        (n \<in> fst ` set C \<or> (\<exists>i < length shape. dims' ! i = Some n))}" by simp
  next
    fix n assume "n \<in> {n. Some n \<in> set dims' \<and>
        (n \<in> fst ` set C \<or> (\<exists>i < length shape. dims' ! i = Some n))}"
    then have a: "Some n \<in> set dims'"
      and b: "n \<in> fst ` set C \<or> (\<exists>i < length shape. dims' ! i = Some n)" by simp_all
    from b have "n \<in> fst ` set ?c"
    proof
      assume "n \<in> fst ` set C"
      then show ?thesis by (rule gdc_loop_keys_mono)
    next
      assume "\<exists>i < length shape. dims' ! i = Some n"
      then obtain i where i: "i < length shape" "dims' ! i = Some n" by blast
      from gdc_loop_named[of 0 D i shape var_name C] i(1)
      obtain m where "dims' ! i = Some m" "m \<in> fst ` set ?c" unfolding d by auto
      with i(2) show ?thesis by simp
    qed
    with a keys show "n \<in> fst ` set coords'" by simp
  qed
  have short: "length D \<le> length shape \<longrightarrow>
      length dims' = length shape \<and> set dims' = Some ` fst ` set coords'"
  proof
    assume le: "length D \<le> length shape"
    then have l: "length dims' = length shape" using len by simp
    have "set dims' \<subseteq> Some ` fst ` set coords'"
    proof
      fix x assume "x \<in> set dims'"
      then obtain i where i: "i < length dims'" "dims' ! i = x" by (auto simp: in_set_conv_nth)
      with named l obtain n where "dims' ! i = Some n" "n \<in> fst ` set coords'" by metis
      with i show "x \<in> Some ` fst ` set coords'" by blast
    qed
    moreover have "Some ` fst ` set coords' \<subseteq> set dims'" using sub by blast
    ultimately show "length dims' = length shape \<and> set dims' = Some ` fst ` set coords'"
      using l by blast
  qed
  have dist: "distinct (map fst C) \<longrightarrow> distinct (map fst coords')"
  proof
    assume "distinct (map fst C)"
    then have "distinct (map fst ?c)" by (rule gdc_loop_distinct)
    then show "distinct (map fst coords')" unfolding c by (rule distinct_map_filter)
  qed
  show ?thesis
    apply (intro conjI)
    subgoal using len by (simp add: D_def)
    subgoal using kept by (simp add: D_def)
    subgoal using sub .
    subgoal using named .
    subgoal using exact by (simp add: C_def)
    subgoal using short by (simp add: D_def)
    subgoal using dist by (simp add: C_def)
    done
qed

theorem generate_dims_coords_sizes_witness:
  "generate_dims_coords [2, 2] ''x'' (Some [None, Some ''a''])
        (Some [(''zz'', []), (''a'', [PyStr ''u''])]) None =
      ([], [Some ''x_dim_0'', Some ''a''],
           [(''a'', [PyStr ''u'']), (''x_dim_0'', [PyInt 0, PyInt 1])])
   \<and> length [Some ''x_dim_0'', Some ''a''] = length [2, 2 :: nat]
   \<and> set [Some ''x_dim_0'', Some ''a''] =
       Some ` fst ` set [(''a'', [PyStr ''u'']), (''x_dim_0'', [PyInt 0, PyInt 1])]
   \<and> distinct (map fst [(''a'', [PyStr ''u'']), (''x_dim_0'', [PyInt 0, PyInt 1])])
   \<and> generate_dims_coords [2] ''x'' (Some [Some ''a'', Some ''a'', Some ''b'', Some ''c''])
        (Some [(''c'', [PyStr ''u''])]) None =
      ([MoreDimsThanShape ''x'' 4 1 []], [Some ''a'', Some ''a'', Some ''b'', Some ''c''],
           [(''c'', [PyStr ''u'']), (''a'', [PyInt 0, PyInt 1])])
   \<and> length [Some ''a'', Some ''a'', Some ''b'', Some ''c''] = max (length [2 :: nat]) 4
   \<and> [Some ''a'', Some ''a'', Some ''b'', Some ''c''] ! 1 = Some ''a''
   \<and> fst ` set [(''c'', [PyStr ''u'']), (''a'', [PyInt 0, PyInt 1])] = {''a'', ''c''}"
proof -
  have e: "generate_dims_coords [2, 2] ''x'' (Some [None, Some ''a''])
        (Some [(''zz'', []), (''a'', [PyStr ''u''])]) None =
      ([], [Some ''x_dim_0'', Some ''a''],
           [(''a'', [PyStr ''u'']), (''x_dim_0'', [PyInt 0, PyInt 1])])"
    by code_simp
  have f: "generate_dims_coords [2] ''x'' (Some [Some ''a'', Some ''a'', Some ''b'', Some ''c''])
        (Some [(''c'', [PyStr ''u''])]) None =
      ([MoreDimsThanShape ''x'' 4 1 []], [Some ''a'', Some ''a'', Some ''b'', Some ''c''],
           [(''c'', [PyStr ''u'']), (''a'', [PyInt 0, PyInt 1])])"
    by code_simp
  from conjunct1[OF generate_dims_coords_sizes[OF e]]
  have a: "length [Some ''x_dim_0'', Some ''a''] = length [2, 2 :: nat]" by simp
  from conjunct1[OF generate_dims_coords_sizes[OF f]]
  have b: "length [Some ''a'', Some ''a'', Some ''b'', Some ''c''] = max (length [2 :: nat]) 4"
    by simp
  have c: "set [Some ''x_dim_0'', Some ''a''] =
       Some ` fst ` set [(''a'', [PyStr ''u'']), (''x_dim_0'', [PyInt 0, PyInt 1])]"
    by (simp add: insert_commute)
  have d: "fst ` set [(''c'', [PyStr ''u'']), (''a'', [PyInt 0, PyInt 1])] = {''a'', ''c''}"
    by (simp add: insert_commute)
  show ?thesis
    apply (intro conjI)
    subgoal by (rule e)
    subgoal by (rule a)
    subgoal by (rule c)
    subgoal by simp
    subgoal by (rule f)
    subgoal by (rule b)
    subgoal by simp
    subgoal by (rule d)
    done
qed

text \<open>
  C6. The claim is that a caller-supplied coordinate sequence whose length is not the
  length of its axis makes \<open>numpy_to_data_array\<close> fail with a coordinate-length error.
  This is what happens for a free dimension that the caller names (second equation: a
  coordinate of length 3 on the axis \<open>x\<close> of length 4). For \<open>chain\<close> it does not happen
  (first equation: a coordinate of length 3 for 4 chains): the filter of line 103 keeps
  only the coordinates of the inferred dims, so the caller's \<open>chain\<close> coordinate is gone
  before line 158 looks for it, the default range is used, and the array is returned.
\<close>

theorem numpy_to_data_array_chain_coords_dropped:
  "numpy_to_data_array \<lparr>nd_shape = [4, 5], nd_data = replicate 20 (0 :: int)\<rparr> ''data''
       (Some [(''chain'', [PyInt 0, PyInt 1, PyInt 2])]) None =
     ([], Inr \<lparr>da_values = \<lparr>nd_shape = [4, 5], nd_data = replicate 20 0\<rparr>,
               da_coords = [(''chain'', [PyInt 0, PyInt 1, PyInt 2, PyInt 3]),
                            (''draw'', [PyInt 0, PyInt 1, PyInt 2, PyInt 3, PyInt 4])],
               da_dims = [''chain'', ''draw'']\<rparr>)
   \<and> numpy_to_data_array \<lparr>nd_shape = [2, 5, 4], nd_data = replicate 40 (0 :: int)\<rparr> ''data''
       (Some [(''x'', [PyInt 0, PyInt 1, PyInt 2])]) (Some [Some ''x'']) =
     ([], Inl (CoordinateLengthError ''x'' 4))"
  by code_simp

text \<open>
  C7 (as stated). The claim has a valid result returned in both warning situations.
  With more named dims than free axes (one dim \<open>a\<close> for an array of shape \<open>(4, 5)\<close>)
  \<open>generate_dims_coords\<close> warns and returns the surplus dim with no coordinate, and
  \<open>numpy_to_data_array\<close> then ends in a \<open>KeyError\<close>, not in a labeled array.
\<close>

theorem shape_mismatch_warnings_counterexample:
  "generate_dims_coords [] ''data'' (Some [Some ''a'']) None (Some [''chain'', ''draw'']) =
     ([MoreDimsThanShape ''data'' 1 0 [''chain'', ''draw'']], [Some ''a''], [])
   \<and> numpy_to_data_array \<lparr>nd_shape = [4, 5], nd_data = replicate 20 (0 :: int)\<rparr> ''data'' None
        (Some [Some ''a'']) =
     ([MoreDimsThanShape ''data'' 1 0 [''chain'', ''draw'']], Inl (KeyError (Some ''a'')))"
  by code_simp

text \<open>
  C7 (amended). \<open>generate_dims_coords\<close> warns exactly when the entries of \<open>dims\<close> that
  are not default dims outnumber the axes of \<open>shape\<close>, and it then returns dims that
  are longer than \<open>shape\<close>. \<open>numpy_to_data_array\<close> warns exactly when there are more
  chains than draws, followed by the warnings of \<open>generate_dims_coords\<close> for the free
  axes. The warning for more chains than draws leaves the result as it is: with no dims
  and no coords a labeled array is returned whatever the two counts are. A call of
  \<open>numpy_to_data_array\<close> in which dims outnumber the free axes ends in an error.
\<close>

theorem shape_mismatch_warnings:
  "fst (generate_dims_coords shape var_name dims coords default_dims) =
     (if length shape < length (filter (\<lambda>dim. dim \<notin> Some ` set (case default_dims of None \<Rightarrow> [] | Some d \<Rightarrow> d))
                                  (case dims of None \<Rightarrow> [] | Some d \<Rightarrow> d))
      then [MoreDimsThanShape var_name (length (case dims of None \<Rightarrow> [] | Some d \<Rightarrow> d))
              (length shape) (case default_dims of None \<Rightarrow> [] | Some d \<Rightarrow> d)]
      else [])
   \<and> (length shape < length (filter (\<lambda>dim. dim \<notin> Some ` set (case default_dims of None \<Rightarrow> [] | Some d \<Rightarrow> d))
                                  (case dims of None \<Rightarrow> [] | Some d \<Rightarrow> d)) \<longrightarrow>
        length shape < length (fst (snd (generate_dims_coords shape var_name dims coords default_dims))))
   \<and> (nd_shape (two_de ary) = n_chains # n_samples # S \<longrightarrow>
        fst (numpy_to_data_array ary v cs ds) =
          (if n_chains > n_samples then [MoreChainsThanDraws n_chains n_samples] else []) @
          fst (generate_dims_coords S v ds cs (Some [''chain'', ''draw''])))
   \<and> (nd_shape (two_de ary) = n_chains # n_samples # S \<and>
        length S < length (filter (\<lambda>dim. dim \<notin> Some ` set [''chain'', ''draw''])
                            (case ds of None \<Rightarrow> [] | Some d \<Rightarrow> d)) \<longrightarrow>
        (\<exists>e. snd (numpy_to_data_array ary v cs ds) = Inl e))
   \<and> (\<exists>da. numpy_to_data_array \<lparr>nd_shape = n_chains # n_samples # S, nd_data = xs\<rparr> v None None =
          ((if n_chains > n_samples then [MoreChainsThanDraws n_chains n_samples] else []), Inr da))"
proof (intro conjI)
  show "fst (generate_dims_coords shape var_name dims coords default_dims) =
     (if length shape < length (filter (\<lambda>dim. dim \<notin> Some ` set (case default_dims of None \<Rightarrow> [] | Some d \<Rightarrow> d))
                                  (case dims of None \<Rightarrow> [] | Some d \<Rightarrow> d))
      then [MoreDimsThanShape var_name (length (case dims of None \<Rightarrow> [] | Some d \<Rightarrow> d))
              (length shape) (case default_dims of None \<Rightarrow> [] | Some d \<Rightarrow> d)]
      else [])"
    by (rule generate_dims_coords_fst)
  show "length shape < length (filter (\<lambda>dim. dim \<notin> Some ` set (case default_dims of None \<Rightarrow> [] | Some d \<Rightarrow> d))
                                  (case dims of None \<Rightarrow> [] | Some d \<Rightarrow> d)) \<longrightarrow>
        length shape < length (fst (snd (generate_dims_coords shape var_name dims coords default_dims)))"
    using surplus_dims_kept by blast
  show "nd_shape (two_de ary) = n_chains # n_samples # S \<longrightarrow>
        fst (numpy_to_data_array ary v cs ds) =
          (if n_chains > n_samples then [MoreChainsThanDraws n_chains n_samples] else []) @
          fst (generate_dims_coords S v ds cs (Some [''chain'', ''draw'']))"
    using numpy_to_data_array_fst by blast
  show "nd_shape (two_de ary) = n_chains # n_samples # S \<and>
        length S < length (filter (\<lambda>dim. dim \<notin> Some ` set [''chain'', ''draw''])
                            (case ds of None \<Rightarrow> [] | Some d \<Rightarrow> d)) \<longrightarrow>
        (\<exists>e. snd (numpy_to_data_array ary v cs ds) = Inl e)"
    using surplus_dims_fail[of ary n_chains n_samples S ds v cs] unfolding non_default_def by blast
  show "\<exists>da. numpy_to_data_array \<lparr>nd_shape = n_chains # n_samples # S, nd_data = xs\<rparr> v None None =
          ((if n_chains > n_samples then [MoreChainsThanDraws n_chains n_samples] else []), Inr da)"
    using numpy_to_data_array_None[of "\<lparr>nd_shape = n_chains # n_samples # S, nd_data = xs\<rparr>"
        n_chains n_samples S v] by simp
qed

theorem shape_mismatch_warnings_witness:
  "numpy_to_data_array \<lparr>nd_shape = [10, 5], nd_data = replicate 50 (0 :: int)\<rparr> ''data'' None None =
     ([MoreChainsThanDraws 10 5],
      Inr \<lparr>da_values = \<lparr>nd_shape = [10, 5], nd_data = replicate 50 0\<rparr>,
           da_coords = [(''chain'', map (\<lambda>j. PyInt (int j)) [0..<10]),
                        (''draw'', map (\<lambda>j. PyInt (int j)) [0..<5])],
           da_dims = [''chain'', ''draw'']\<rparr>)
   \<and> length (map (\<lambda>j. PyInt (int j)) [0..<10]) = 10
   \<and> length (map (\<lambda>j. PyInt (int j)) [0..<5]) = 5
   \<and> fst (generate_dims_coords [] ''data'' (Some [Some ''a'']) None (Some [''chain'', ''draw''])) =
       [MoreDimsThanShape ''data'' 1 0 [''chain'', ''draw'']]
   \<and> length ([] :: nat list) <
       length (fst (snd (generate_dims_coords [] ''data'' (Some [Some ''a'']) None (Some [''chain'', ''draw'']))))
   \<and> (\<exists>e. snd (numpy_to_data_array \<lparr>nd_shape = [4, 5], nd_data = replicate 20 (0 :: int)\<rparr> ''data'' None
                 (Some [Some ''a''])) = Inl e)"
proof -
  have t1: "nd_shape (two_de \<lparr>nd_shape = [10, 5], nd_data = replicate 50 (0 :: int)\<rparr>) = [10, 5]"
    by (simp add: two_de_def)
  have t2: "nd_shape (two_de \<lparr>nd_shape = [4, 5], nd_data = replicate 20 (0 :: int)\<rparr>) = [4, 5]"
    by (simp add: two_de_def)
  have e: "numpy_to_data_array \<lparr>nd_shape = [10, 5], nd_data = replicate 50 (0 :: int)\<rparr> ''data'' None None =
     ([MoreChainsThanDraws 10 5],
      Inr \<lparr>da_values = \<lparr>nd_shape = [10, 5], nd_data = replicate 50 0\<rparr>,
           da_coords = [(''chain'', map (\<lambda>j. PyInt (int j)) [0..<10]),
                        (''draw'', map (\<lambda>j. PyInt (int j)) [0..<5])],
           da_dims = [''chain'', ''draw'']\<rparr>)"
    using numpy_to_data_array_None[of "\<lparr>nd_shape = [10, 5], nd_data = replicate 50 (0 :: int)\<rparr>"
        10 5 "[]" "''data''"] by (simp add: arange_def)
  show ?thesis
    using e t1 t2
      shape_mismatch_warnings[where shape="[]" and default_dims="Some [''chain'', ''draw'']"
        and dims="Some [Some ''a'']" and var_name="''data''" and coords=None
        and ary="\<lparr>nd_shape = [4, 5], nd_data = replicate 20 (0 :: int)\<rparr>"
        and n_chains=4 and n_samples=5 and S="[]" and v="''data''" and cs=None
        and ds="Some [Some ''a'']" and xs="[] :: int list"]
    by simp
qed

text \<open>
  C8. \<open>generate_dims_coords\<close> does not change the objects of its caller. For every
  store and every call whose \<open>dims\<close> and \<open>coords\<close> arguments are \<open>None\<close> or the
  addresses of a list of names and of a coordinate dictionary, the call returns; the
  store it leaves has the store it found as a prefix, so the caller's list and the
  caller's dictionary (with its sequences) read after the call as they did before; the
  returned list and dictionary are new objects; and they hold the dims and coords that
  the function computes on the values.
\<close>

theorem generate_dims_coords_store_frame:
  assumes "rel_option (\<lambda>r D. get_list s r = Some D) dims dv"
    and "rel_option (\<lambda>r C. read_dict s r = Some C) coords cv"
  shows "\<exists>s' ws dims' coords'.
      generate_dims_coords_store s shape var_name dims coords default_dims =
        Some (s', ws, dims', coords')
    \<and> take (length s) s' = s
    \<and> rel_option (\<lambda>r D. get_list s' r = Some D) dims dv
    \<and> rel_option (\<lambda>r C. read_dict s' r = Some C) coords cv
    \<and> length s \<le> dims' \<and> length s \<le> coords'
    \<and> (ws, get_list s' dims', read_dict s' coords') =
        (case generate_dims_coords shape var_name dv cv default_dims of
           (w, d, c) \<Rightarrow> (w, Some d, Some c))"
proof -
  from generate_dims_coords_store_refines[OF assms, of shape var_name default_dims]
  obtain s' d' c' where
    e: "generate_dims_coords_store s shape var_name dims coords default_dims =
        Some (s', fst (generate_dims_coords shape var_name dv cv default_dims), d', c')"
    and g: "get_list s' d' = Some (fst (snd (generate_dims_coords shape var_name dv cv default_dims)))"
    and r: "read_dict s' c' = Some (snd (snd (generate_dims_coords shape var_name dv cv default_dims)))"
    by blast
  from generate_dims_coords_store_keeps[OF e]
  have k: "keeps s s'" and f: "length s \<le> d'" "length s \<le> c'" by simp_all
  have 1: "take (length s) s' = s" using k by (simp add: keeps_def)
  have 2: "rel_option (\<lambda>r D. get_list s' r = Some D) dims dv"
    using assms(1) keeps_get_list[OF k] by (cases dims; cases dv) simp_all
  have 3: "rel_option (\<lambda>r C. read_dict s' r = Some C) coords cv"
    using assms(2) keeps_read_dict[OF k] by (cases coords; cases cv) simp_all
  have 4: "(fst (generate_dims_coords shape var_name dv cv default_dims),
            get_list s' d', read_dict s' c') =
        (case generate_dims_coords shape var_name dv cv default_dims of
           (w, d, c) \<Rightarrow> (w, Some d, Some c))"
    using g r by (simp add: case_prod_beta)
  from e 1 2 3 f 4 show ?thesis by blast
qed

theorem generate_dims_coords_store_frame_witness:
  "generate_dims_coords_store
      [ListObj [None, Some ''a''], SeqObj [PyStr ''u''], DictObj [(''zz'', 1), (''a'', 1)]]
      [2, 2] ''x'' (Some 0) (Some 2) None =
     Some ([ListObj [None, Some ''a''], SeqObj [PyStr ''u''], DictObj [(''zz'', 1), (''a'', 1)],
            SeqObj [PyStr ''u''],
            DictObj [(''zz'', 3), (''a'', 3), (''x_dim_0'', 6)],
            ListObj [Some ''x_dim_0'', Some ''a''], SeqObj [PyInt 0, PyInt 1],
            DictObj [(''a'', 3), (''x_dim_0'', 6)]],
           [], 5, 7)
   \<and> get_list [ListObj [None, Some ''a''], SeqObj [PyStr ''u''], DictObj [(''zz'', 1), (''a'', 1)],
            SeqObj [PyStr ''u''],
            DictObj [(''zz'', 3), (''a'', 3), (''x_dim_0'', 6)],
            ListObj [Some ''x_dim_0'', Some ''a''], SeqObj [PyInt 0, PyInt 1],
            DictObj [(''a'', 3), (''x_dim_0'', 6)]] 0 = Some [None, Some ''a'']
   \<and> read_dict [ListObj [None, Some ''a''], SeqObj [PyStr ''u''], DictObj [(''zz'', 1), (''a'', 1)],
            SeqObj [PyStr ''u''],
            DictObj [(''zz'', 3), (''a'', 3), (''x_dim_0'', 6)],
            ListObj [Some ''x_dim_0'', Some ''a''], SeqObj [PyInt 0, PyInt 1],
            DictObj [(''a'', 3), (''x_dim_0'', 6)]] 2
       = Some [(''zz'', [PyStr ''u'']), (''a'', [PyStr ''u''])]"
proof -
  let ?s = "[ListObj [None, Some ''a''], SeqObj [PyStr ''u''], DictObj [(''zz'', 1), (''a'', 1)]]"
  have e: "generate_dims_coords_store ?s [2, 2] ''x'' (Some 0) (Some 2) None =
     Some ([ListObj [None, Some ''a''], SeqObj [PyStr ''u''], DictObj [(''zz'', 1), (''a'', 1)],
            SeqObj [PyStr ''u''],
            DictObj [(''zz'', 3), (''a'', 3), (''x_dim_0'', 6)],
            ListObj [Some ''x_dim_0'', Some ''a''], SeqObj [PyInt 0, PyInt 1],
            DictObj [(''a'', 3), (''x_dim_0'', 6)]],
           [], 5, 7)"
    by code_simp
  have g: "rel_option (\<lambda>r D. get_list ?s r = Some D) (Some 0) (Some [None, Some ''a''])"
    by (simp add: get_list_def)
  have r: "rel_option (\<lambda>r C. read_dict ?s r = Some C) (Some 2)
             (Some [(''zz'', [PyStr ''u'']), (''a'', [PyStr ''u''])])"
    by (simp add: read_dict_def get_dict_def get_seq_def)
  from generate_dims_coords_store_frame[OF g r, of "[2, 2]" "''x''" None]
  show ?thesis unfolding e by auto
qed



text \<open>
  C10. The result of \<open>make_attrs\<close> always has the key \<open>created_at\<close>; with no attrs and
  no library it is that one entry; an entry of the caller's attrs is in the result with
  the caller's value, whatever the defaults hold for its key, and a key that the caller
  does not give keeps its default.
\<close>

theorem make_attrs_created_at:
  "''created_at'' \<in> fst ` set (make_attrs e attrs library)
   \<and> make_attrs e None None = [(''created_at'', PyStr (utcnow_isoformat e))]
   \<and> (distinct (map fst a) \<and> map_of a k = Some x \<longrightarrow>
        map_of (make_attrs e (Some a) library) k = Some x)
   \<and> (k \<notin> fst ` set a \<longrightarrow>
        map_of (make_attrs e (Some a) library) k = map_of (make_attrs e None library) k)"
proof (intro conjI impI)
  show "''created_at'' \<in> fst ` set (make_attrs e attrs library)"
  proof (cases attrs)
    case None
    then show ?thesis using created_at_default by simp
  next
    case (Some a)
    then show ?thesis using created_at_default[of e library]
      by (simp add: make_attrs_Some keys_dict_update)
  qed
  show "make_attrs e None None = [(''created_at'', PyStr (utcnow_isoformat e))]"
    by (simp add: make_attrs_def)
next
  assume a: "distinct (map fst a) \<and> map_of a k = Some x"
  then have "map_of (rev a) k = Some x" by (simp add: map_of_rev_distinct)
  then show "map_of (make_attrs e (Some a) library) k = Some x"
    by (simp add: make_attrs_Some map_of_dict_update map_add_def)
next
  assume "k \<notin> fst ` set a"
  then have "map_of (rev a) k = None" by (simp add: map_of_eq_None_iff)
  then show "map_of (make_attrs e (Some a) library) k = map_of (make_attrs e None library) k"
    by (simp add: make_attrs_Some map_of_dict_update map_add_def)
qed

theorem make_attrs_created_at_witness:
  "make_attrs \<lparr>utcnow_isoformat = ''2019-11-04T10:00:00'', get_distribution_version = (\<lambda>n. None)\<rparr>
      (Some [(''created_at'', PyStr ''then''), (''k'', PyInt 1)])
      (Some \<lparr>mod_name = ''pymc3'', mod_version = Some (PyStr ''3.8'')\<rparr>) =
     [(''created_at'', PyStr ''then''), (''inference_library'', PyStr ''pymc3''),
      (''inference_library_version'', PyStr ''3.8''), (''k'', PyInt 1)]
   \<and> map_of (make_attrs \<lparr>utcnow_isoformat = ''2019-11-04T10:00:00'', get_distribution_version = (\<lambda>n. None)\<rparr>
      (Some [(''created_at'', PyStr ''then''), (''k'', PyInt 1)])
      (Some \<lparr>mod_name = ''pymc3'', mod_version = Some (PyStr ''3.8'')\<rparr>)) ''created_at''
      = Some (PyStr ''then'')"
proof -
  have e: "make_attrs \<lparr>utcnow_isoformat = ''2019-11-04T10:00:00'', get_distribution_version = (\<lambda>n. None)\<rparr>
      (Some [(''created_at'', PyStr ''then''), (''k'', PyInt 1)])
      (Some \<lparr>mod_name = ''pymc3'', mod_version = Some (PyStr ''3.8'')\<rparr>) =
     [(''created_at'', PyStr ''then''), (''inference_library'', PyStr ''pymc3''),
      (''inference_library_version'', PyStr ''3.8''), (''k'', PyInt 1)]"
    by (simp add: make_attrs_def dict_update_def)
  show ?thesis
    using e make_attrs_created_at[where a="[(''created_at'', PyStr ''then''), (''k'', PyInt 1)]"
        and k="''created_at''" and x="PyStr ''then''"
        and e="\<lparr>utcnow_isoformat = ''2019-11-04T10:00:00'', get_distribution_version = (\<lambda>n. None)\<rparr>"
        and library="Some \<lparr>mod_name = ''pymc3'', mod_version = Some (PyStr ''3.8'')\<rparr>"]
    by simp
qed

end
